theory Spec2Isabelle
  imports Main "HOL-Library.List_Lexorder"
begin

section \<open>Text\<close>

text \<open>
  A Python \<open>str\<close> is a sequence of Unicode code points. The icon table holds characters
  far outside the 8-bit range, and \<open>\s\<close> and \<open>[^"]\<close> work on code points, so text is a
  list of code points here; \<open>asc\<close> turns an ASCII literal into text.
\<close>

type_synonym str = "nat list"

definition asc :: "string \<Rightarrow> str" where
  "asc s = map of_char s"

section \<open>The icon table\<close>

text \<open>
  \<open>ICON_MAP\<close> is a dict literal with 127 distinct keys; iteration follows insertion
  order, so it is an association list in source order. Values are given by code point.
  The literal is written in thirteen commented groups, which are kept here.
\<close>

text \<open>Navigation & Actions\<close>

definition navigation_icons :: "(string \<times> str) list" where
  "navigation_icons =
     [(''fa-arrow-left'', [0x2190]),
      (''fa-arrow-right'', [0x2192]),
      (''fa-arrow-up'', [0x2191]),
      (''fa-arrow-down'', [0x2193]),
      (''fa-chevron-left'', [0x2039]),
      (''fa-chevron-right'', [0x203A]),
      (''fa-times'', [0x2716, 0xFE0F]),
      (''fa-times-circle'', [0x274C]),
      (''fa-check'', [0x2713]),
      (''fa-check-circle'', [0x2705]),
      (''fa-plus'', [0x2795]),
      (''fa-minus'', [0x2796]),
      (''fa-minus-circle'', [0x2796])]"

text \<open>Common UI\<close>

definition common_ui_icons :: "(string \<times> str) list" where
  "common_ui_icons =
     [(''fa-save'', [0x1F4BE]),
      (''fa-edit'', [0x270F, 0xFE0F]),
      (''fa-trash'', [0x1F5D1, 0xFE0F]),
      (''fa-trash-alt'', [0x1F5D1, 0xFE0F]),
      (''fa-search'', [0x1F50D]),
      (''fa-filter'', [0x1F50D]),
      (''fa-sync'', [0x1F504]),
      (''fa-sync-alt'', [0x1F504]),
      (''fa-refresh'', [0x1F504]),
      (''fa-redo'', [0x1F504]),
      (''fa-spinner'', [0x23F3]),
      (''fa-cog'', [0x2699, 0xFE0F]),
      (''fa-eye'', [0x1F441, 0xFE0F]),
      (''fa-download'', [0x2B07, 0xFE0F]),
      (''fa-upload'', [0x2B06, 0xFE0F]),
      (''fa-file-upload'', [0x1F4E4]),
      (''fa-play'', [0x25B6, 0xFE0F]),
      (''fa-circle'', [0x1F535])]"

text \<open>Info & Status\<close>

definition status_icons :: "(string \<times> str) list" where
  "status_icons =
     [(''fa-info-circle'', [0x2139, 0xFE0F]),
      (''fa-question-circle'', [0x2753]),
      (''fa-exclamation-circle'', [0x26A0, 0xFE0F]),
      (''fa-exclamation-triangle'', [0x26A0, 0xFE0F]),
      (''fa-lightbulb'', [0x1F4A1]),
      (''fa-bell'', [0x1F514])]"

text \<open>Time & Calendar\<close>

definition calendar_icons :: "(string \<times> str) list" where
  "calendar_icons =
     [(''fa-clock'', [0x23F1, 0xFE0F]),
      (''fa-calendar'', [0x1F4C5]),
      (''fa-calendar-plus'', [0x1F4C5]),
      (''fa-calendar-alt'', [0x1F4C5]),
      (''fa-calendar-check'', [0x2705]),
      (''fa-history'', [0x1F4DC]),
      (''fa-stopwatch'', [0x23F1, 0xFE0F])]"

text \<open>Communication\<close>

definition communication_icons :: "(string \<times> str) list" where
  "communication_icons =
     [(''fa-envelope'', [0x2709, 0xFE0F]),
      (''fa-phone'', [0x1F4DE]),
      (''fa-comments'', [0x1F4AC]),
      (''fa-comment'', [0x1F4AC]),
      (''fa-paper-plane'', [0x1F4E4]),
      (''fa-reply'', [0x21A9, 0xFE0F]),
      (''fa-inbox'', [0x1F4E5])]"

text \<open>People & Users\<close>

definition people_icons :: "(string \<times> str) list" where
  "people_icons =
     [(''fa-user'', [0x1F464]),
      (''fa-users'', [0x1F465]),
      (''fa-user-circle'', [0x1F464]),
      (''fa-user-check'', [0x2705])]"

text \<open>Business & Office\<close>

definition office_icons :: "(string \<times> str) list" where
  "office_icons =
     [(''fa-building'', [0x1F3E2]),
      (''fa-briefcase'', [0x1F4BC]),
      (''fa-handshake'', [0x1F91D]),
      (''fa-folder'', [0x1F4C1]),
      (''fa-folder-open'', [0x1F4C2]),
      (''fa-folder-plus'', [0x1F4C1]),
      (''fa-file-alt'', [0x1F4C4]),
      (''fa-file-contract'', [0x1F4CB])]"

text \<open>Tech & Development\<close>

definition tech_icons :: "(string \<times> str) list" where
  "tech_icons =
     [(''fa-robot'', [0x1F916]),
      (''fa-laptop-code'', [0x1F4BB]),
      (''fa-database'', [0x1F4BE]),
      (''fa-server'', [0x1F5A5, 0xFE0F]),
      (''fa-terminal'', [0x1F4BB]),
      (''fa-code'', [0x1F4BB])]"

text \<open>Security & Protection\<close>

definition security_icons :: "(string \<times> str) list" where
  "security_icons =
     [(''fa-shield-alt'', [0x1F6E1, 0xFE0F]),
      (''fa-lock'', [0x1F512]),
      (''fa-key'', [0x1F511])]"

text \<open>Content & Media\<close>

definition media_icons :: "(string \<times> str) list" where
  "media_icons =
     [(''fa-image'', [0x1F5BC, 0xFE0F]),
      (''fa-music'', [0x1F3B5]),
      (''fa-microphone'', [0x1F3A4]),
      (''fa-video'', [0x1F3A5]),
      (''fa-newspaper'', [0x1F4F0])]"

text \<open>Location & Map\<close>

definition map_icons :: "(string \<times> str) list" where
  "map_icons =
     [(''fa-map-marker-alt'', [0x1F4CD]),
      (''fa-map-signs'', [0x1F5FA, 0xFE0F]),
      (''fa-globe'', [0x1F30D])]"

text \<open>Social Media\<close>

definition social_icons :: "(string \<times> str) list" where
  "social_icons =
     [(''fa-facebook'', [0x1F4D8]),
      (''fa-instagram'', [0x1F4F7]),
      (''fa-tiktok'', [0x1F3B5]),
      (''fa-linkedin'', [0x1F4BC]),
      (''fa-youtube'', [0x1F4FA]),
      (''fa-twitter'', [0x1F426]),
      (''fa-google'', [0x1F50D]),
      (''fa-share-alt'', [0x1F517])]"

text \<open>Other Common\<close>

definition other_icons :: "(string \<times> str) list" where
  "other_icons =
     [(''fa-list'', [0x1F4CB]),
      (''fa-list-check'', [0x2705]),
      (''fa-chart-bar'', [0x1F4CA]),
      (''fa-chart-line'', [0x1F4C8]),
      (''fa-toggle-on'', [0x1F51B]),
      (''fa-sitemap'', [0x1F5FA, 0xFE0F]),
      (''fa-tag'', [0x1F3F7, 0xFE0F]),
      (''fa-tags'', [0x1F3F7, 0xFE0F]),
      (''fa-link'', [0x1F517]),
      (''fa-external-link-alt'', [0x1F517]),
      (''fa-bolt'', [0x26A1]),
      (''fa-mobile-alt'', [0x1F4F1]),
      (''fa-rocket'', [0x1F680]),
      (''fa-magic'', [0x2728]),
      (''fa-star'', [0x2B50]),
      (''fa-broom'', [0x1F9F9]),
      (''fa-box-open'', [0x1F4E6]),
      (''fa-undo'', [0x21A9, 0xFE0F]),
      (''fa-flask'', [0x1F9EA]),
      (''fa-vial'', [0x1F9EA]),
      (''fa-ban'', [0x1F6AB]),
      (''fa-sliders-h'', [0x1F39A, 0xFE0F]),
      (''fa-exchange-alt'', [0x1F504]),
      (''fa-plug'', [0x1F50C]),
      (''fa-door-open'', [0x1F6AA]),
      (''fa-layer-group'', [0x1F4DA]),
      (''fa-network-wired'', [0x1F310]),
      (''fa-signal'', [0x1F4F6]),
      (''fa-hand-pointer'', [0x1F446]),
      (''fa-ellipsis-h'', [0x22EF]),
      (''fa-sort'', [0x21C5]),
      (''fa-sort-numeric-down'', [0x1F522]),
      (''fa-archive'', [0x1F4E6]),
      (''fa-guitar'', [0x1F3B8]),
      (''fa-home'', [0x1F3E0]),
      (''fa-sign-out-alt'', [0x1F6AA]),
      (''fa-circle-notch'', [0x23F3]),
      (''fa-satellite-dish'', [0x1F4E1]),
      (''fa-book'', [0x1F4D6])]"

definition ICON_MAP :: "(string \<times> str) list" where
  "ICON_MAP =
     navigation_icons @
     common_ui_icons @
     status_icons @
     calendar_icons @
     communication_icons @
     people_icons @
     office_icons @
     tech_icons @
     security_icons @
     media_icons @
     map_icons @
     social_icons @
     other_icons"

section \<open>The fragment of Python's re that the program uses\<close>

text \<open>
  The three patterns of the program are built from literal characters, the classes
  \<open>\s\<close>, \<open>[srb]\<close>, \<open>[^"]\<close> and \<open>[^>]\<close>, the greedy repetitions \<open>*\<close> and \<open>+\<close> of a class, and
  the greedy optional non-capturing group \<open>(?:...)?\<close>. A pattern is the list of its items.
\<close>

datatype cset = Space | AnyOf str | NoneOf str

datatype item = Lit nat | One cset | Star cset | Plus cset | Opt "item list"

type_synonym regex = "item list"

text \<open>
  \<open>\s\<close> on a \<open>str\<close> pattern is Unicode whitespace (the characters for which
  \<open>str.isspace\<close> holds).
\<close>

definition is_space :: "nat \<Rightarrow> bool" where
  "is_space c \<longleftrightarrow>
     (0x09 \<le> c \<and> c \<le> 0x0D) \<or> (0x1C \<le> c \<and> c \<le> 0x20) \<or> c = 0x85 \<or> c = 0xA0 \<or>
     c = 0x1680 \<or> (0x2000 \<le> c \<and> c \<le> 0x200A) \<or> c = 0x2028 \<or> c = 0x2029 \<or>
     c = 0x202F \<or> c = 0x205F \<or> c = 0x3000"

fun mem :: "cset \<Rightarrow> nat \<Rightarrow> bool" where
  "mem Space c = is_space c"
| "mem (AnyOf cs) c = (c \<in> set cs)"
| "mem (NoneOf cs) c = (c \<notin> set cs)"

fun weight :: "item \<Rightarrow> nat" where
  "weight (Lit c) = 1"
| "weight (One cs) = 1"
| "weight (Star cs) = 1"
| "weight (Plus cs) = 2"
| "weight (Opt g) = Suc (sum_list (map weight g))"

text \<open>
  \<open>bt p s\<close> is the backtracking matcher anchored at the start of \<open>s\<close>: it returns the text
  left after the first match in the engine's priority order (a greedy repetition tries the
  longest run first and gives characters back one at a time, a greedy optional group tries
  the group first), or \<open>None\<close> when every alternative fails.
\<close>

function bt :: "regex \<Rightarrow> str \<Rightarrow> str option" where
  "bt [] s = Some s"
| "bt (Lit c # p) [] = None"
| "bt (Lit c # p) (x # xs) = (if x = c then bt p xs else None)"
| "bt (One cs # p) [] = None"
| "bt (One cs # p) (x # xs) = (if mem cs x then bt p xs else None)"
| "bt (Plus cs # p) [] = None"
| "bt (Plus cs # p) (x # xs) = (if mem cs x then bt (Star cs # p) xs else None)"
| "bt (Star cs # p) [] = bt p []"
| "bt (Star cs # p) (x # xs) =
     (if mem cs x
      then (case bt (Star cs # p) xs of Some r \<Rightarrow> Some r | None \<Rightarrow> bt p (x # xs))
      else bt p (x # xs))"
| "bt (Opt g # p) s = (case bt (g @ p) s of Some r \<Rightarrow> Some r | None \<Rightarrow> bt p s)"
  by pat_completeness auto
termination
  by (relation "(\<lambda>(p, s). sum_list (map weight p)) <*mlex*> measure (\<lambda>(p, s). length s)")
     (auto intro: wf_mlex mlex_less mlex_leq)

text \<open>
  \<open>re.findall(p, s)\<close> and \<open>re.sub(p, repl, s)\<close> scan \<open>s\<close> from left to right: at each
  position the anchored matcher is tried, a match is taken and the scan goes on after it,
  otherwise the scan moves one character on. The patterns have no capturing group, so
  \<open>findall\<close> returns the matched texts; the replacement strings hold no backslash, so
  \<open>sub\<close> inserts them as they are. Every pattern of the program starts with the literal
  \<open><\<close> and so never matches the empty text; for an empty match the scan below emits the
  result and moves one character on.
\<close>

fun findall :: "regex \<Rightarrow> str \<Rightarrow> str list" where
  "findall p s =
     (case bt p s of
        Some r \<Rightarrow>
          if length r < length s then take (length s - length r) s # findall p r
          else (case s of [] \<Rightarrow> [[]] | x # xs \<Rightarrow> [] # findall p xs)
      | None \<Rightarrow> (case s of [] \<Rightarrow> [] | x # xs \<Rightarrow> findall p xs))"

fun re_sub :: "regex \<Rightarrow> str \<Rightarrow> str \<Rightarrow> str" where
  "re_sub p repl s =
     (case bt p s of
        Some r \<Rightarrow>
          if length r < length s then repl @ re_sub p repl r
          else (case s of [] \<Rightarrow> repl | x # xs \<Rightarrow> repl @ x # re_sub p repl xs)
      | None \<Rightarrow> (case s of [] \<Rightarrow> [] | x # xs \<Rightarrow> x # re_sub p repl xs))"

declare findall.simps [simp del] re_sub.simps [simp del]

section \<open>The patterns\<close>

definition lits :: "string \<Rightarrow> regex" where
  "lits s = map (\<lambda>c. Lit (of_char c)) s"

definition quote :: nat where
  "quote = 0x22"

text \<open>\<open>style="[^"]*"\<close>\<close>

definition style_attr :: regex where
  "style_attr = lits ''style='' @ [Lit quote, Star (NoneOf [quote]), Lit quote]"

text \<open>\<open>"\s*(?:style="[^"]*")?\s*></i>\s*\<close>, the common tail of both generic patterns.\<close>

definition tail_items :: regex where
  "tail_items = [Lit quote, Star Space, Opt style_attr, Star Space] @ lits ''></i>'' @ [Star Space]"

text \<open>\<open><i\s+class="\<close>\<close>

definition head_items :: regex where
  "head_items = lits ''<i'' @ [Plus Space] @ lits ''class='' @ [Lit quote]"

text \<open>\<open>fa[srb]\s+\<close>\<close>

definition prefix_items :: regex where
  "prefix_items = lits ''fa'' @ [One (AnyOf (asc ''srb'')), Plus Space]"

text \<open>Pattern 1: \<open><i\s+class="fa[srb]\s+ICON(?:\s+[^"]*)?"\s*(?:style="[^"]*")?\s*></i>\s*\<close>\<close>

definition pattern1 :: "string \<Rightarrow> regex" where
  "pattern1 fa_class =
     head_items @ prefix_items @ lits fa_class @
     [Opt [Plus Space, Star (NoneOf [quote])]] @ tail_items"

text \<open>Pattern 2: \<open><i\s+class="[^"]*fa[srb]\s+ICON[^"]*"\s*(?:style="[^"]*")?\s*></i>\s*\<close>\<close>

definition pattern2 :: "string \<Rightarrow> regex" where
  "pattern2 fa_class =
     head_items @ [Star (NoneOf [quote])] @ prefix_items @ lits fa_class @
     [Star (NoneOf [quote])] @ tail_items"

text \<open>The special case: \<open><i\s+class="fas\s+fa-spinner\s+fa-spin"[^>]*></i>\<close>\<close>

definition spinner_pattern :: regex where
  "spinner_pattern =
     head_items @ lits ''fas'' @ [Plus Space] @ lits ''fa-spinner'' @ [Plus Space] @
     lits ''fa-spin'' @ [Lit quote, Star (NoneOf (asc ''>''))] @ lits ''></i>''"

definition hourglass :: str where
  "hourglass = [0x23F3]"

section \<open>The substitutions of one file\<close>

text \<open>One round of the loop over the table: pattern 1, then pattern 2 on the result.\<close>

definition apply_pattern :: "regex \<Rightarrow> str \<Rightarrow> str \<times> nat \<Rightarrow> str \<times> nat" where
  "apply_pattern p emoji st =
     (case st of (content, changes) \<Rightarrow>
        (let matches = findall p content in
         if matches \<noteq> [] then (re_sub p (emoji @ asc '' '') content, changes + length matches)
         else (content, changes)))"

definition icon_step :: "string \<times> str \<Rightarrow> str \<times> nat \<Rightarrow> str \<times> nat" where
  "icon_step entry st =
     (case entry of (fa_class, emoji) \<Rightarrow>
        apply_pattern (pattern2 fa_class) emoji (apply_pattern (pattern1 fa_class) emoji st))"

text \<open>
  Lines 173 to 193: the loop over \<open>ICON_MAP\<close>, then the special case, which changes the
  content and leaves the count alone.
\<close>

definition substitute :: "str \<Rightarrow> str \<times> nat" where
  "substitute original =
     (case foldl (\<lambda>st entry. icon_step entry st) (original, 0) ICON_MAP of
        (content, changes) \<Rightarrow> (re_sub spinner_pattern hourglass content, changes))"


text \<open>The loop alone, lines 173 to 190: the text and the count it leaves.\<close>

definition icon_loop :: "str \<Rightarrow> str \<times> nat" where
  "icon_loop original = foldl (\<lambda>st entry. icon_step entry st) (original, 0) ICON_MAP"

section \<open>Paths\<close>

text \<open>
  A path is the list of its parts, as \<open>Path.parts\<close> gives them: an absolute path starts
  with the part \<open>/\<close>. \<open>path_str\<close> is \<open>str(path)\<close> on a POSIX system.
\<close>

type_synonym path = "str list"

fun join_parts :: "str list \<Rightarrow> str" where
  "join_parts [] = []"
| "join_parts [x] = x"
| "join_parts (x # y # ys) = x @ asc ''/'' @ join_parts (y # ys)"

definition path_str :: "path \<Rightarrow> str" where
  "path_str p =
     (case p of
        [] \<Rightarrow> asc ''.''
      | r # rest \<Rightarrow> if r = asc ''/'' then r @ join_parts rest else join_parts p)"

text \<open>\<open>needle in haystack\<close> on two strings.\<close>

fun starts_with :: "str \<Rightarrow> str \<Rightarrow> bool" where
  "starts_with [] s = True"
| "starts_with (y # ys) [] = False"
| "starts_with (y # ys) (x # xs) = (x = y \<and> starts_with ys xs)"

fun occurs_in :: "str \<Rightarrow> str \<Rightarrow> bool" where
  "occurs_in ys [] = (ys = [])"
| "occurs_in ys (x # xs) = (starts_with ys (x # xs) \<or> occurs_in ys xs)"

text \<open>
  \<open>p.relative_to(base)\<close> raises \<open>ValueError\<close> when \<open>p\<close> does not lie under \<open>base\<close>.
\<close>

fun relative_to :: "path \<Rightarrow> path \<Rightarrow> path option" where
  "relative_to p [] = Some p"
| "relative_to [] (b # bs) = None"
| "relative_to (x # xs) (b # bs) = (if x = b then relative_to xs bs else None)"

section \<open>Files\<close>

text \<open>
  The file store keeps the decoded text of each file. For each path it also says whether
  opening the file for reading (or reading and decoding it) raises, with the exception's
  message, and whether writing to it fails: either \<open>open\<close> raises and the file stays as
  it is, or \<open>open\<close> has truncated the file and writing or closing raises, which leaves
  some text in the file. \<open>accesses\<close> records every call of \<open>open\<close>, in order.

  The messages are those of the exceptions, as Python and the system word them; the
  store gives them and nothing here builds one. \<open>not_found\<close> is the message of the
  \<open>FileNotFoundError\<close> that \<open>open\<close> raises for a path at which there is no file.
\<close>

datatype access = OpenRead path | OpenWrite path

datatype write_fault = OpenFails str | WriteFails str str

fun fault_message :: "write_fault \<Rightarrow> str" where
  "fault_message (OpenFails msg) = msg"
| "fault_message (WriteFails msg left) = msg"

record fsys =
  files :: "path \<Rightarrow> str option"
  read_error :: "path \<Rightarrow> str option"
  write_error :: "path \<Rightarrow> write_fault option"
  not_found :: "path \<Rightarrow> str"
  accesses :: "access list"

text \<open>
  Reading in text mode with the default \<open>newline=None\<close> turns \<open>\r\n\<close> and a lone \<open>\r\<close>
  into \<open>\n\<close>.
\<close>

fun universal_newlines :: "str \<Rightarrow> str" where
  "universal_newlines [] = []"
| "universal_newlines [x] = (if x = 0x0D then [0x0A] else [x])"
| "universal_newlines (x # y # ys) =
     (if x = 0x0D then
        (if y = 0x0A then 0x0A # universal_newlines ys else 0x0A # universal_newlines (y # ys))
      else x # universal_newlines (y # ys))"

text \<open>
  \<open>with open(file_path, 'r', encoding='utf-8') as f: content = f.read()\<close>. The result is
  \<open>Inl\<close> of the message when an exception is raised.
\<close>

definition read_text :: "fsys \<Rightarrow> path \<Rightarrow> (str + str) \<times> fsys" where
  "read_text fs p =
     (let fs' = fs\<lparr>accesses := accesses fs @ [OpenRead p]\<rparr> in
      case read_error fs p of
        Some msg \<Rightarrow> (Inl msg, fs')
      | None \<Rightarrow>
         (case files fs p of
            None \<Rightarrow> (Inl (not_found fs p), fs')
          | Some t \<Rightarrow> (Inr (universal_newlines t), fs')))"

text \<open>
  \<open>with open(file_path, 'w', encoding='utf-8') as f: f.write(content)\<close>, on a system
  whose line separator is \<open>\n\<close>.
\<close>

definition write_text :: "fsys \<Rightarrow> path \<Rightarrow> str \<Rightarrow> (str + unit) \<times> fsys" where
  "write_text fs p content =
     (let fs' = fs\<lparr>accesses := accesses fs @ [OpenWrite p]\<rparr> in
      case write_error fs p of
        Some (OpenFails msg) \<Rightarrow> (Inl msg, fs')
      | Some (WriteFails msg left) \<Rightarrow> (Inl msg, fs'\<lparr>files := (files fs)(p \<mapsto> left)\<rparr>)
      | None \<Rightarrow> (Inr (), fs'\<lparr>files := (files fs)(p \<mapsto> content)\<rparr>))"

section \<open>replace_fontawesome_in_file\<close>

text \<open>
  The body of the \<open>try\<close> statement, lines 170 to 201. \<open>Inl msg\<close> is an exception raised
  inside it; \<open>Inr n\<close> is the value returned.
\<close>

definition try_block :: "fsys \<Rightarrow> path \<Rightarrow> (str + nat) \<times> fsys" where
  "try_block fs file_path =
     (case read_text fs file_path of
        (Inl msg, fs1) \<Rightarrow> (Inl msg, fs1)
      | (Inr original_content, fs1) \<Rightarrow>
         (case substitute original_content of
            (content, changes) \<Rightarrow>
              if content \<noteq> original_content then
                (case write_text fs1 file_path content of
                   (Inl msg, fs2) \<Rightarrow> (Inl msg, fs2)
                 | (Inr u, fs2) \<Rightarrow> (Inr changes, fs2))
              else (Inr 0, fs1)))"

definition cross_mark :: str where
  "cross_mark = [0x274C]"

definition error_line :: "path \<Rightarrow> str \<Rightarrow> str" where
  "error_line file_path msg =
     cross_mark @ asc '' Error processing '' @ path_str file_path @ asc '': '' @ msg"

text \<open>
  The whole function: \<open>except Exception as e\<close> prints the error and returns 0. The state
  is the file store and the lines printed so far; the result is the count with the new
  state.
\<close>

definition replace_fontawesome_in_file ::
  "fsys \<times> str list \<Rightarrow> path \<Rightarrow> nat \<times> fsys \<times> str list" where
  "replace_fontawesome_in_file st file_path =
     (case st of (fs, out) \<Rightarrow>
        (case try_block fs file_path of
           (Inl msg, fs') \<Rightarrow> (0, fs', out @ [error_line file_path msg])
         | (Inr changes, fs') \<Rightarrow> (changes, fs', out)))"

section \<open>main\<close>

text \<open>
  What \<open>main\<close> sees of its surroundings: the directory of the script
  (\<open>Path(__file__).parent\<close>), whether \<open>views\<close> exists in it, and what
  \<open>base_dir.rglob('*.ejs')\<close> lists, each entry given relative to \<open>base_dir\<close>.
\<close>

record env =
  script_dir :: path
  views_exists :: bool
  rglob_ejs :: "path list"

fun str_of_nat :: "nat \<Rightarrow> str" where
  "str_of_nat n =
     (if n < 10 then [48 + n] else str_of_nat (n div 10) @ [48 + n mod 10])"

declare str_of_nat.simps [simp del]

definition rule50 :: str where
  "rule50 = replicate 50 (of_char CHR ''='')"

definition base_dir :: "env \<Rightarrow> path" where
  "base_dir e = script_dir e @ [asc ''views'']"

definition banner :: "str list" where
  "banner = [[0x1F680] @ asc '' FontAwesome to Emoji Converter'', rule50]"

definition not_found_line :: "env \<Rightarrow> str" where
  "not_found_line e = cross_mark @ asc '' Views directory not found: '' @ path_str (base_dir e)"

definition found_line :: "nat \<Rightarrow> str" where
  "found_line n = [0x1F4C2] @ asc '' Found '' @ str_of_nat n @ asc '' EJS files to process'' @ [0x0A]"

definition replaced_line :: "path \<Rightarrow> nat \<Rightarrow> str" where
  "replaced_line relative_path changes =
     [0x2705] @ asc '' '' @ path_str relative_path @ asc '': '' @ str_of_nat changes @
     asc '' icons replaced''"

definition summary :: "nat \<Rightarrow> nat \<Rightarrow> str list" where
  "summary files_modified total_changes =
     [[0x0A] @ rule50,
      [0x2728] @ asc '' Complete!'',
      [0x1F4CA] @ asc '' Files modified: '' @ str_of_nat files_modified,
      [0x1F504] @ asc '' Total icons replaced: '' @ str_of_nat total_changes,
      [0x0A, 0x1F4A1] @ asc '' Note: Dynamic icons (variables) need manual review!'',
      asc ''   Example: fa-<%= statusIcon %>'']"

text \<open>
  \<open>ejs_files = [f for f in base_dir.rglob('*.ejs') if 'backup' not in str(f)]\<close>
\<close>

definition candidates :: "env \<Rightarrow> path list" where
  "candidates e =
     filter (\<lambda>f. \<not> occurs_in (asc ''backup'') (path_str f))
       (map (\<lambda>rel. base_dir e @ rel) (rglob_ejs e))"

datatype outcome = Completed | Uncaught str

text \<open>
  The loop of lines 230 to 237. The state is the file store, the lines printed, and the
  two counters \<open>total_changes\<close> and \<open>files_modified\<close>. An exception that nothing catches
  ends the loop.
\<close>

type_synonym run_state = "fsys \<times> str list \<times> nat \<times> nat"

fun process_files :: "env \<Rightarrow> path list \<Rightarrow> run_state \<Rightarrow> outcome \<times> run_state" where
  "process_files e [] st = (Completed, st)"
| "process_files e (file_path # rest) (fs, out, total_changes, files_modified) =
     (case relative_to file_path (script_dir e) of
        None \<Rightarrow> (Uncaught (asc ''ValueError''), (fs, out, total_changes, files_modified))
      | Some relative_path \<Rightarrow>
         (case replace_fontawesome_in_file (fs, out) file_path of
            (changes, fs', out') \<Rightarrow>
              if changes > 0 then
                process_files e rest
                  (fs', out' @ [replaced_line relative_path changes],
                   total_changes + changes, files_modified + 1)
              else process_files e rest (fs', out', total_changes, files_modified)))"

text \<open>\<open>main\<close>: the outcome, the file store at the end, and everything printed.\<close>

definition main :: "env \<Rightarrow> fsys \<Rightarrow> outcome \<times> fsys \<times> str list" where
  "main e fs =
     (if \<not> views_exists e then (Completed, fs, banner @ [not_found_line e])
      else
        (let ejs_files = candidates e in
         case process_files e (sort ejs_files)
                (fs, banner @ [found_line (length ejs_files)], 0, 0) of
           (Completed, (fs', out, total_changes, files_modified)) \<Rightarrow>
             (Completed, fs', out @ summary files_modified total_changes)
         | (Uncaught msg, (fs', out, total_changes, files_modified)) \<Rightarrow>
             (Uncaught msg, fs', out)))"

section \<open>What a pattern matches\<close>

text \<open>
  The set of texts a pattern can match, by the structure of the pattern. It is used to
  reason about the matcher; the program runs \<open>bt\<close>.
\<close>

fun lang_item :: "item \<Rightarrow> str set" and lang :: "regex \<Rightarrow> str set" where
  "lang_item (Lit c) = {[c]}"
| "lang_item (One cs) = {[x] |x. mem cs x}"
| "lang_item (Star cs) = {u. \<forall>x\<in>set u. mem cs x}"
| "lang_item (Plus cs) = {u. u \<noteq> [] \<and> (\<forall>x\<in>set u. mem cs x)}"
| "lang_item (Opt g) = insert [] (lang g)"
| "lang [] = {[]}"
| "lang (i # p) = {u @ v |u v. u \<in> lang_item i \<and> v \<in> lang p}"


section \<open>Inputs used in the examples below\<close>

text \<open>
  The message Python gives for a missing file when the path holds no quote, backslash
  or unprintable character (the path is then printed between single quotes), which is so
  for the paths used below. A store with one file that can be read and
  written, and one whose file cannot be opened for writing; a run over a single template \<open>/app/views/index.ejs\<close>; the spinner
  element with further text between the class attribute and the end of the tag; the icon
  element with a given prefix token and identifier and nothing else in the tag; a store
  whose file cannot be read; a run without a \<open>views\<close> directory; and a run in which
  \<open>rglob\<close> also lists \<open>/app/views/backup/old.ejs\<close>.
\<close>

definition no_such_file :: "path \<Rightarrow> str" where
  "no_such_file q =
     asc ''[Errno 2] No such file or directory: '' @ [0x27] @ path_str q @ [0x27]"

definition plain_store :: "path \<Rightarrow> str \<Rightarrow> fsys" where
  "plain_store p t =
     \<lparr>files = [p \<mapsto> t], read_error = (\<lambda>q. None), write_error = (\<lambda>q. None),
      not_found = no_such_file, accesses = []\<rparr>"

definition locked_store :: "path \<Rightarrow> str \<Rightarrow> str \<Rightarrow> fsys" where
  "locked_store p t msg =
     \<lparr>files = [p \<mapsto> t], read_error = (\<lambda>q. None),
      write_error = (\<lambda>q. Some (OpenFails msg)), not_found = no_such_file, accesses = []\<rparr>"

definition demo_env :: env where
  "demo_env = \<lparr>script_dir = [asc ''/'', asc ''app''], views_exists = True,
                rglob_ejs = [[asc ''index.ejs'']]\<rparr>"

definition demo_file :: path where
  "demo_file = [asc ''/'', asc ''app'', asc ''views'', asc ''index.ejs'']"

definition spin_element :: "str \<Rightarrow> str" where
  "spin_element attrs = asc ''<i class=\"fas fa-spinner fa-spin\"'' @ attrs @ asc ''></i>''"

definition icon_element :: "string \<Rightarrow> string \<Rightarrow> str" where
  "icon_element prefix ident =
     asc ''<i class=\"'' @ asc prefix @ asc '' '' @ asc ident @ asc ''\"></i>''"

definition unreadable_store :: "path \<Rightarrow> str \<Rightarrow> fsys" where
  "unreadable_store p msg =
     \<lparr>files = Map.empty, read_error = [p \<mapsto> msg], write_error = (\<lambda>q. None),
      not_found = no_such_file, accesses = []\<rparr>"

definition absent_env :: env where
  "absent_env = \<lparr>script_dir = [asc ''/'', asc ''app''], views_exists = False, rglob_ejs = []\<rparr>"

definition backup_env :: env where
  "backup_env = \<lparr>script_dir = [asc ''/'', asc ''app''], views_exists = True,
                  rglob_ejs = [[asc ''backup'', asc ''old.ejs''], [asc ''index.ejs'']]\<rparr>"

definition backup_file :: path where
  "backup_file = [asc ''/'', asc ''app'', asc ''views'', asc ''backup'', asc ''old.ejs'']"

definition denied :: str where
  "denied = asc ''[Errno 13] Permission denied''"

section \<open>A check over the table\<close>

text \<open>\<open>unmatched c es\<close>: neither pattern of any entry of \<open>es\<close> finds anything in \<open>c\<close>.\<close>

fun unmatched :: "str \<Rightarrow> (string \<times> str) list \<Rightarrow> bool" where
  "unmatched c [] = True"
| "unmatched c (entry # es) =
     (findall (pattern1 (fst entry)) c = [] \<and> findall (pattern2 (fst entry)) c = [] \<and>
      unmatched c es)"

section \<open>Properties of the matcher\<close>

lemma bt_length: "bt p s = Some r \<Longrightarrow> length r \<le> length s"
  by (induction p s arbitrary: r rule: bt.induct)
     (fastforce split: if_splits option.splits)+

lemma lang_append: "lang (p @ q) = {u @ v |u v. u \<in> lang p \<and> v \<in> lang q}"
proof (induction p)
  case Nil
  show ?case by simp
next
  case (Cons i p)
  show ?case
  proof (rule set_eqI, rule iffI)
    fix w
    assume "w \<in> lang ((i # p) @ q)"
    then obtain a b c where "w = a @ b @ c" "a \<in> lang_item i" "b \<in> lang p" "c \<in> lang q"
      by (auto simp: Cons)
    then have "w = (a @ b) @ c" "a @ b \<in> lang (i # p)" "c \<in> lang q" by auto
    then show "w \<in> {u @ v |u v. u \<in> lang (i # p) \<and> v \<in> lang q}" by blast
  next
    fix w
    assume "w \<in> {u @ v |u v. u \<in> lang (i # p) \<and> v \<in> lang q}"
    then obtain a b c where "w = (a @ b) @ c" "a \<in> lang_item i" "b \<in> lang p" "c \<in> lang q"
      by auto
    then have "w = a @ (b @ c)" "b @ c \<in> lang (p @ q)" "a \<in> lang_item i"
      by (auto simp: Cons)
    then show "w \<in> lang ((i # p) @ q)" by auto
  qed
qed


lemma lang_ConsI: "u \<in> lang_item i \<Longrightarrow> v \<in> lang p \<Longrightarrow> u @ v \<in> lang (i # p)"
  by auto

lemma lang_ConsE: "w \<in> lang (i # p) \<Longrightarrow> \<exists>u v. w = u @ v \<and> u \<in> lang_item i \<and> v \<in> lang p"
  by auto

lemma lang_skip: "[] \<in> lang_item i \<Longrightarrow> v \<in> lang p \<Longrightarrow> v \<in> lang (i # p)"
  using lang_ConsI [of "[]" i v p] by simp

lemma lang_Star_more:
  assumes "mem cs x" and "w \<in> lang (Star cs # p)"
  shows "x # w \<in> lang (Star cs # p)" and "x # w \<in> lang (Plus cs # p)"
proof -
  from assms(2) obtain a b where ab: "w = a @ b" "a \<in> lang_item (Star cs)" "b \<in> lang p"
    using lang_ConsE by blast
  have "x # a \<in> lang_item (Star cs)" "x # a \<in> lang_item (Plus cs)"
    using ab(2) assms(1) by simp_all
  then have "(x # a) @ b \<in> lang (Star cs # p)" "(x # a) @ b \<in> lang (Plus cs # p)"
    using ab(3) lang_ConsI by blast+
  then show "x # w \<in> lang (Star cs # p)" and "x # w \<in> lang (Plus cs # p)"
    using ab(1) by simp_all
qed

lemma bt_sound: "bt p s = Some r \<Longrightarrow> \<exists>u. u \<in> lang p \<and> s = u @ r"
proof (induction p s arbitrary: r rule: bt.induct)
  case (1 s)
  then show ?case by simp
next
  case (2 c p)
  then show ?case by simp
next
  case (3 c p x xs)
  from "3.prems" have xc: "x = c" and b: "bt p xs = Some r" by (simp_all split: if_splits)
  from "3.IH" [OF xc b] obtain u where u: "u \<in> lang p" "xs = u @ r" by blast
  have "[c] @ u \<in> lang (Lit c # p)" by (rule lang_ConsI) (simp_all add: u(1))
  then show ?case using u xc by auto
next
  case (4 cs p)
  then show ?case by simp
next
  case (5 cs p x xs)
  from "5.prems" have m: "mem cs x" and b: "bt p xs = Some r" by (simp_all split: if_splits)
  from "5.IH" [OF m b] obtain u where u: "u \<in> lang p" "xs = u @ r" by blast
  have "[x] @ u \<in> lang (One cs # p)" by (rule lang_ConsI) (simp_all add: u(1) m)
  then show ?case using u by auto
next
  case (6 cs p)
  then show ?case by simp
next
  case (7 cs p x xs)
  from "7.prems" have m: "mem cs x" and b: "bt (Star cs # p) xs = Some r"
    by (simp_all split: if_splits)
  from "7.IH" [OF m b] obtain u where u: "u \<in> lang (Star cs # p)" "xs = u @ r" by blast
  from lang_Star_more(2) [OF m u(1)] show ?case using u(2) by auto
next
  case (8 cs p)
  from "8.prems" have b: "bt p [] = Some r" by simp
  from "8.IH" [OF b] obtain u where u: "u \<in> lang p" "[] = u @ r" by blast
  have "u \<in> lang (Star cs # p)" by (rule lang_skip) (simp_all add: u(1))
  then show ?case using u by blast
next
  case (9 cs p x xs)
  show ?case
  proof (cases "mem cs x \<and> bt (Star cs # p) xs \<noteq> None")
    case True
    then have m: "mem cs x" and b: "bt (Star cs # p) xs = Some r"
      using "9.prems" by auto
    from "9.IH"(1) [OF m b] obtain u where u: "u \<in> lang (Star cs # p)" "xs = u @ r" by blast
    from lang_Star_more(1) [OF m u(1)] show ?thesis using u(2) by auto
  next
    case False
    then have b: "bt p (x # xs) = Some r"
      using "9.prems" by (auto split: if_splits option.splits)
    have "\<exists>u. u \<in> lang p \<and> x # xs = u @ r"
    proof (cases "mem cs x")
      case True
      with False have "bt (Star cs # p) xs = None" by simp
      from "9.IH"(2) [OF True this b] show ?thesis .
    next
      case False
      from "9.IH"(3) [OF False b] show ?thesis .
    qed
    then obtain u where u: "u \<in> lang p" "x # xs = u @ r" by blast
    have "u \<in> lang (Star cs # p)" by (rule lang_skip) (simp_all add: u(1))
    then show ?thesis using u by blast
  qed
next
  case (10 g p s)
  show ?case
  proof (cases "bt (g @ p) s")
    case None
    with "10.prems" have b: "bt p s = Some r" by simp
    from "10.IH"(2) [OF None b] obtain u where u: "u \<in> lang p" "s = u @ r" by blast
    have "u \<in> lang (Opt g # p)" by (rule lang_skip) (simp_all add: u(1))
    then show ?thesis using u by blast
  next
    case (Some r')
    with "10.prems" have b: "bt (g @ p) s = Some r" by simp
    from "10.IH"(1) [OF b] obtain u where u: "u \<in> lang (g @ p)" "s = u @ r" by blast
    then obtain a c where ac: "u = a @ c" "a \<in> lang g" "c \<in> lang p"
      unfolding lang_append by blast
    have "a @ c \<in> lang (Opt g # p)" by (rule lang_ConsI) (simp_all add: ac)
    then show ?thesis using u ac by blast
  qed
qed

lemma starts_with_iff: "starts_with ys s \<longleftrightarrow> (\<exists>b. s = ys @ b)"
  by (induction ys s rule: starts_with.induct) auto

lemma occurs_in_iff: "occurs_in ys s \<longleftrightarrow> (\<exists>a b. s = a @ ys @ b)"
proof (induction s)
  case Nil
  show ?case by auto
next
  case (Cons x xs)
  show ?case
  proof
    assume "occurs_in ys (x # xs)"
    then consider "starts_with ys (x # xs)" | "occurs_in ys xs" by auto
    then show "\<exists>a b. x # xs = a @ ys @ b"
    proof cases
      case 1
      then obtain b where "x # xs = [] @ ys @ b" by (auto simp: starts_with_iff)
      then show ?thesis by blast
    next
      case 2
      then obtain a b where "xs = a @ ys @ b" using Cons by blast
      then have "x # xs = (x # a) @ ys @ b" by simp
      then show ?thesis by blast
    qed
  next
    assume "\<exists>a b. x # xs = a @ ys @ b"
    then obtain a b where ab: "x # xs = a @ ys @ b" by blast
    show "occurs_in ys (x # xs)"
    proof (cases a)
      case Nil
      with ab have "starts_with ys (x # xs)" unfolding starts_with_iff by auto
      then show ?thesis by simp
    next
      case (Cons a0 a')
      with ab have "xs = a' @ ys @ b" by simp
      then show ?thesis using Cons.IH by auto
    qed
  qed
qed

lemma lang_lits: "u \<in> lang (map Lit ys @ q) \<Longrightarrow> \<exists>v. u = ys @ v \<and> v \<in> lang q"
  by (induction ys arbitrary: u) auto

lemma lang_contains:
  assumes "u \<in> lang (p @ lits fa @ q)"
  shows "occurs_in (asc fa) u"
proof -
  from assms obtain a w where aw: "u = a @ w" "w \<in> lang (lits fa @ q)"
    unfolding lang_append by blast
  have "lits fa = map Lit (asc fa)" by (simp add: lits_def asc_def)
  with aw(2) obtain v where "w = asc fa @ v" using lang_lits by metis
  with aw(1) show ?thesis unfolding occurs_in_iff by blast
qed

lemma bt_contains:
  assumes "bt (p @ lits fa @ q) s = Some r"
  shows "occurs_in (asc fa) s"
proof -
  from bt_sound [OF assms] obtain u where u: "u \<in> lang (p @ lits fa @ q)" "s = u @ r" by blast
  from lang_contains [OF u(1)] obtain a b where "u = a @ asc fa @ b"
    unfolding occurs_in_iff by blast
  with u(2) have "s = a @ asc fa @ (b @ r)" by simp
  then show ?thesis unfolding occurs_in_iff by blast
qed

lemma findall_absent:
  "\<not> occurs_in (asc fa) s \<Longrightarrow> findall (p @ lits fa @ q) s = []"
proof (induction s)
  case Nil
  then have "bt (p @ lits fa @ q) [] = None" using bt_contains by fastforce
  then show ?case by (simp add: findall.simps)
next
  case (Cons x xs)
  then have "bt (p @ lits fa @ q) (x # xs) = None" using bt_contains by fastforce
  moreover have "\<not> occurs_in (asc fa) xs" using Cons.prems by auto
  ultimately show ?case using Cons.IH by (simp add: findall.simps [of _ "x # xs"])
qed

lemma absent_no_match:
  assumes "\<not> occurs_in (asc fa) c"
  shows "findall (pattern1 fa) c = [] \<and> findall (pattern2 fa) c = []"
proof -
  have 1: "findall (pattern1 fa) c = []"
    unfolding pattern1_def using findall_absent [OF assms, of "head_items @ prefix_items"]
    by simp
  have 2: "findall (pattern2 fa) c = []"
    unfolding pattern2_def
    using findall_absent [OF assms, of "head_items @ [Star (NoneOf [quote])] @ prefix_items"]
    by simp
  show ?thesis using 1 2 by simp
qed

lemma icon_step_absent:
  "\<not> occurs_in (asc fa) c \<Longrightarrow> icon_step (fa, e) (c, n) = (c, n)"
  using absent_no_match [of fa c] by (simp add: icon_step_def apply_pattern_def)

lemma icon_step_eval:
  "icon_step (fa, e) (c, n) =
     (if occurs_in (asc fa) c
      then apply_pattern (pattern2 fa) e (apply_pattern (pattern1 fa) e (c, n))
      else (c, n))"
  using icon_step_absent by (simp add: icon_step_def)

section \<open>Evaluating the substitutions\<close>

lemmas pat_defs = pattern1_def pattern2_def spinner_pattern_def head_items_def prefix_items_def
  tail_items_def style_attr_def lits_def asc_def quote_def is_space_def
lemmas group_defs = navigation_icons_def common_ui_icons_def status_icons_def calendar_icons_def
  communication_icons_def people_icons_def office_icons_def tech_icons_def security_icons_def
  media_icons_def map_icons_def social_icons_def other_icons_def
lemmas run_defs = icon_step_eval apply_pattern_def hourglass_def
  findall.simps re_sub.simps Let_def

lemma subst_trash:
  "substitute (asc ''<i class=\"fas fa-trash\"></i>'') = ([0x1F5D1, 0xFE0F, 0x20], 1)"
  unfolding substitute_def ICON_MAP_def foldl_append
  by (simp add: group_defs pat_defs run_defs)

lemma subst_save_style:
  "substitute (asc ''<i class=\"fas fa-save\" style=\"color:red\"></i>'') = ([0x1F4BE, 0x20], 1)"
  unfolding substitute_def ICON_MAP_def foldl_append
  by (simp add: group_defs pat_defs run_defs)

lemma subst_users:
  "substitute (asc ''<i class=\"fas fa-users\"></i>'') = ([0x1F464, 0x20], 1)"
  unfolding substitute_def ICON_MAP_def foldl_append
  by (simp add: group_defs pat_defs run_defs)

lemma subst_folder_open:
  "substitute (asc ''<p><i class=\"far fa-folder-open\"></i> Files</p>'') =
     (asc ''<p>'' @ [0x1F4C1] @ asc '' Files</p>'', 1)"
  unfolding substitute_def ICON_MAP_def foldl_append
  by (simp add: group_defs pat_defs run_defs)

lemma subst_folder_again:
  "substitute (asc ''<p>'' @ [0x1F4C1] @ asc '' Files</p>'') =
     (asc ''<p>'' @ [0x1F4C1] @ asc '' Files</p>'', 0)"
  unfolding substitute_def ICON_MAP_def foldl_append
  by (simp add: group_defs pat_defs run_defs)

lemma subst_spin_plain:
  "substitute (spin_element []) = ([0x23F3, 0x20], 1)"
  unfolding substitute_def ICON_MAP_def foldl_append spin_element_def
  by (simp add: group_defs pat_defs run_defs)

lemma subst_spin_id:
  "substitute (spin_element (asc '' id=\"x\"'')) = ([0x23F3], 0)"
  unfolding substitute_def ICON_MAP_def foldl_append spin_element_def
  by (simp add: group_defs pat_defs run_defs)

lemma subst_calendar_check:
  "substitute (asc ''<i class=\"fas fa-calendar-check\"></i>'') = ([0x1F4C5, 0x20], 1)"
  unfolding substitute_def ICON_MAP_def foldl_append
  by (simp add: group_defs pat_defs run_defs)

lemma lookup_users: "map_of ICON_MAP ''fa-users'' = Some [0x1F465]"
  unfolding ICON_MAP_def map_of_append map_add_def
  by (simp add: group_defs)

lemma lookup_folder_open: "map_of ICON_MAP ''fa-folder-open'' = Some [0x1F4C2]"
  unfolding ICON_MAP_def map_of_append map_add_def
  by (simp add: group_defs)

lemma lookup_calendar:
  "map_of ICON_MAP ''fa-calendar'' = Some [0x1F4C5]"
  "map_of ICON_MAP ''fa-calendar-check'' = Some [0x2705]"
  unfolding ICON_MAP_def map_of_append map_add_def
  by (simp_all add: group_defs)

section \<open>One file\<close>

lemma snd_read_text: "snd (read_text fs p) = fs\<lparr>accesses := accesses fs @ [OpenRead p]\<rparr>"
  by (simp add: read_text_def Let_def split: option.splits)

lemma replace_readable:
  assumes "fst (read_text fs p) = Inr c" and "substitute c = (c', n)"
  shows "replace_fontawesome_in_file (fs, out) p =
     (if c' = c then (0, fs\<lparr>accesses := accesses fs @ [OpenRead p]\<rparr>, out)
      else (case write_error fs p of
              None \<Rightarrow> (n, fs\<lparr>accesses := accesses fs @ [OpenRead p, OpenWrite p],
                            files := (files fs)(p \<mapsto> c')\<rparr>, out)
            | Some fault \<Rightarrow>
                (0, snd (write_text (fs\<lparr>accesses := accesses fs @ [OpenRead p]\<rparr>) p c'),
                 out @ [error_line p (fault_message fault)])))"
proof -
  have r: "read_text fs p = (Inr c, fs\<lparr>accesses := accesses fs @ [OpenRead p]\<rparr>)"
    using assms(1) snd_read_text [of fs p] by (metis prod.collapse)
  show ?thesis
    by (simp add: replace_fontawesome_in_file_def try_block_def r assms(2) write_text_def Let_def
        split: option.splits write_fault.splits)
qed

lemma replace_unreadable:
  assumes "fst (read_text fs p) = Inl msg"
  shows "replace_fontawesome_in_file (fs, out) p =
     (0, fs\<lparr>accesses := accesses fs @ [OpenRead p]\<rparr>, out @ [error_line p msg])"
proof -
  have r: "read_text fs p = (Inl msg, fs\<lparr>accesses := accesses fs @ [OpenRead p]\<rparr>)"
    using assms(1) snd_read_text [of fs p] by (metis prod.collapse)
  show ?thesis
    by (simp add: replace_fontawesome_in_file_def try_block_def r)
qed

lemma universal_newlines_id: "0x0D \<notin> set s \<Longrightarrow> universal_newlines s = s"
  by (induction s rule: universal_newlines.induct) auto

lemma read_plain_store:
  "0x0D \<notin> set t \<Longrightarrow> fst (read_text (plain_store p t) p) = Inr t"
  by (simp add: read_text_def plain_store_def Let_def universal_newlines_id)

lemma read_locked_store:
  "0x0D \<notin> set t \<Longrightarrow> fst (read_text (locked_store p t msg) p) = Inr t"
  by (simp add: read_text_def locked_store_def Let_def universal_newlines_id)

lemma main_demo:
  "main demo_env fs =
     (case replace_fontawesome_in_file (fs, banner @ [found_line 1]) demo_file of
        (changes, fs', out') \<Rightarrow>
          if changes > 0
          then (Completed, fs',
                out' @ [replaced_line [asc ''views'', asc ''index.ejs''] changes] @
                summary 1 changes)
          else (Completed, fs', out' @ summary 0 0))"
  by (simp add: main_def candidates_def demo_env_def demo_file_def base_dir_def path_str_def
      asc_def split: prod.splits)

section \<open>A rewritten file that is not counted\<close>

text \<open>
  C9. There is an input for which the file is rewritten and the count returned is 0: the
  spinner element with a further attribute \<open>id="x"\<close>. Neither generic pattern for
  \<open>fa-spinner\<close> matches it, the special case does; the file then holds the hourglass alone,
  the function returns 0, and the summary of the run reports no file modified and no icon
  replaced.
\<close>

theorem spinner_with_attribute_rewritten_uncounted:
  "findall (pattern1 ''fa-spinner'') (spin_element (asc '' id=\"x\"'')) = [] \<and>
   findall (pattern2 ''fa-spinner'') (spin_element (asc '' id=\"x\"'')) = [] \<and>
   findall spinner_pattern (spin_element (asc '' id=\"x\"'')) = [spin_element (asc '' id=\"x\"'')] \<and>
   replace_fontawesome_in_file (plain_store demo_file (spin_element (asc '' id=\"x\"'')), out) demo_file =
     (0,
      (plain_store demo_file (spin_element (asc '' id=\"x\"'')))
        \<lparr>accesses := [OpenRead demo_file, OpenWrite demo_file],
         files := [demo_file \<mapsto> hourglass]\<rparr>,
      out) \<and>
   main demo_env (plain_store demo_file (spin_element (asc '' id=\"x\"''))) =
     (Completed,
      (plain_store demo_file (spin_element (asc '' id=\"x\"'')))
        \<lparr>accesses := [OpenRead demo_file, OpenWrite demo_file],
         files := [demo_file \<mapsto> hourglass]\<rparr>,
      banner @ [found_line 1] @ summary 0 0)"
proof -
  have cr: "0x0D \<notin> set (spin_element (asc '' id=\"x\"''))"
    by (simp add: spin_element_def asc_def)
  have ne: "hourglass \<noteq> spin_element (asc '' id=\"x\"'')"
    by (simp add: spin_element_def asc_def hourglass_def)
  have s: "substitute (spin_element (asc '' id=\"x\"'')) = (hourglass, 0)"
    by (simp add: subst_spin_id hourglass_def)
  have f: "\<And>out. replace_fontawesome_in_file
             (plain_store demo_file (spin_element (asc '' id=\"x\"'')), out) demo_file =
     (0,
      (plain_store demo_file (spin_element (asc '' id=\"x\"'')))
        \<lparr>accesses := [OpenRead demo_file, OpenWrite demo_file],
         files := [demo_file \<mapsto> hourglass]\<rparr>,
      out)"
    using replace_readable [OF read_plain_store [OF cr] s] ne
    by (simp add: plain_store_def)
  have p1: "findall (pattern1 ''fa-spinner'') (spin_element (asc '' id=\"x\"'')) = []"
    by (simp add: spin_element_def pat_defs findall.simps)
  have p2: "findall (pattern2 ''fa-spinner'') (spin_element (asc '' id=\"x\"'')) = []"
    by (simp add: spin_element_def pat_defs findall.simps)
  have p3: "findall spinner_pattern (spin_element (asc '' id=\"x\"'')) =
              [spin_element (asc '' id=\"x\"'')]"
    by (simp add: spin_element_def pat_defs findall.simps)
  show ?thesis
    by (simp add: p1 p2 p3 f main_demo)
qed

section \<open>The matcher finds what the pattern can match\<close>

lemma bt_complete: "s = u @ r \<Longrightarrow> u \<in> lang p \<Longrightarrow> bt p s \<noteq> None"
proof (induction p s arbitrary: u r rule: bt.induct)
  case (1 s)
  then show ?case by simp
next
  case (2 c p)
  then show ?case by auto
next
  case (3 c p x xs)
  from "3.prems"(2) obtain v where v: "u = c # v" "v \<in> lang p" by auto
  with "3.prems"(1) have xc: "x = c" and xs: "xs = v @ r" by simp_all
  from "3.IH" [OF xc xs v(2)] xc show ?case by simp
next
  case (4 cs p)
  then show ?case by auto
next
  case (5 cs p x xs)
  from "5.prems"(2) obtain y v where v: "u = y # v" "mem cs y" "v \<in> lang p" by auto
  with "5.prems"(1) have xy: "x = y" and xs: "xs = v @ r" by simp_all
  from v(2) xy have m: "mem cs x" by simp
  from "5.IH" [OF m xs v(3)] m show ?case by simp
next
  case (6 cs p)
  then show ?case by auto
next
  case (7 cs p x xs)
  from "7.prems"(2) obtain a v where av: "u = a @ v" "a \<noteq> []" "\<forall>y\<in>set a. mem cs y" "v \<in> lang p"
    by auto
  then obtain y a' where a: "a = y # a'" by (cases a) auto
  with av "7.prems"(1) have xy: "x = y" and xs: "xs = (a' @ v) @ r" by simp_all
  from av(3) a xy have m: "mem cs x" by simp
  have "a' \<in> lang_item (Star cs)" using av(3) a by simp
  then have "a' @ v \<in> lang (Star cs # p)" using av(4) by (rule lang_ConsI)
  from "7.IH" [OF m xs this] m show ?case by simp
next
  case (8 cs p)
  from "8.prems" have "[] \<in> lang (Star cs # p)" by simp
  then have "[] \<in> lang p" by auto
  from "8.IH" [of "[]" "[]", OF _ this] show ?case by simp
next
  case (9 cs p x xs)
  from "9.prems"(2) obtain a v where av: "u = a @ v" "\<forall>y\<in>set a. mem cs y" "v \<in> lang p"
    by auto
  show ?case
  proof (cases a)
    case Nil
    with av "9.prems"(1) have s: "x # xs = v @ r" by simp
    show ?thesis
    proof (cases "mem cs x")
      case False
      from "9.IH"(3) [OF False s av(3)] False show ?thesis by simp
    next
      case True
      show ?thesis
      proof (cases "bt (Star cs # p) xs")
        case None
        from "9.IH"(2) [OF True None s av(3)] True None show ?thesis by simp
      next
        case (Some r')
        with True show ?thesis by simp
      qed
    qed
  next
    case (Cons y a')
    with av "9.prems"(1) have xy: "x = y" and xs: "xs = (a' @ v) @ r" by simp_all
    from av(2) Cons xy have m: "mem cs x" by simp
    have "a' \<in> lang_item (Star cs)" using av(2) Cons by simp
    then have "a' @ v \<in> lang (Star cs # p)" using av(3) by (rule lang_ConsI)
    from "9.IH"(1) [OF m xs this] m show ?thesis by auto
  qed
next
  case (10 g p s)
  show ?case
  proof (cases "bt (g @ p) s")
    case (Some r')
    then show ?thesis by simp
  next
    case None
    from "10.prems"(2) obtain a v where av: "u = a @ v" "a = [] \<or> a \<in> lang g" "v \<in> lang p"
      by auto
    have "a = []"
    proof (rule ccontr)
      assume "a \<noteq> []"
      with av(2) have "a \<in> lang g" by simp
      then have "u \<in> lang (g @ p)" using av(1,3) unfolding lang_append by blast
      from "10.IH"(1) [OF "10.prems"(1) this] None show False by simp
    qed
    with av "10.prems"(1) have "s = v @ r" by simp
    from "10.IH"(2) [OF None this av(3)] None show ?thesis by simp
  qed
qed

lemma bt_match_findall:
  assumes "bt p s \<noteq> None"
  shows "findall p s \<noteq> []"
proof -
  from assms obtain r where r: "bt p s = Some r" by auto
  show ?thesis
    by (subst findall.simps) (simp add: r split: list.splits)
qed

lemma lang_litsI: "v \<in> lang p \<Longrightarrow> asc s @ v \<in> lang (lits s @ p)"
  by (induction s) (auto simp: lits_def asc_def)

lemma lang_StarI: "\<forall>x\<in>set a. mem cs x \<Longrightarrow> v \<in> lang p \<Longrightarrow> a @ v \<in> lang (Star cs # p)"
  by (rule lang_ConsI) simp_all

lemma lang_PlusI:
  "a \<noteq> [] \<Longrightarrow> \<forall>x\<in>set a. mem cs x \<Longrightarrow> v \<in> lang p \<Longrightarrow> a @ v \<in> lang (Plus cs # p)"
  by (rule lang_ConsI) simp_all

lemma lang_LitI: "v \<in> lang p \<Longrightarrow> c # v \<in> lang (Lit c # p)"
  using lang_ConsI [of "[c]" "Lit c" v p] by simp

lemma lang_OneI: "mem cs x \<Longrightarrow> v \<in> lang p \<Longrightarrow> x # v \<in> lang (One cs # p)"
  using lang_ConsI [of "[x]" "One cs" v p] by simp

lemma tail_items_plain: "asc ''\"></i>'' \<in> lang tail_items"
proof -
  have 1: "[] \<in> lang [Star Space]"
    by (rule lang_skip) simp_all
  have "asc ''></i>'' @ [] \<in> lang (lits ''></i>'' @ [Star Space])"
    using 1 by (rule lang_litsI)
  then have 2: "asc ''></i>'' \<in> lang (lits ''></i>'' @ [Star Space])"
    by simp
  have 3: "asc ''></i>'' \<in> lang (Star Space # lits ''></i>'' @ [Star Space])"
    by (rule lang_skip, simp, rule 2)
  have 4: "asc ''></i>'' \<in> lang (Opt style_attr # Star Space # lits ''></i>'' @ [Star Space])"
    by (rule lang_skip, simp, rule 3)
  have 5: "asc ''></i>'' \<in>
             lang (Star Space # Opt style_attr # Star Space # lits ''></i>'' @ [Star Space])"
    by (rule lang_skip, simp, rule 4)
  have "quote # asc ''></i>'' \<in>
          lang (Lit quote # Star Space # Opt style_attr # Star Space #
                lits ''></i>'' @ [Star Space])"
    using 5 by (rule lang_LitI)
  then show ?thesis by (simp add: tail_items_def asc_def quote_def)
qed

lemma head_items_plain:
  assumes "v \<in> lang p"
  shows "asc ''<i class=\"'' @ v \<in> lang (head_items @ p)"
proof -
  have 1: "quote # v \<in> lang (Lit quote # p)" using assms by (rule lang_LitI)
  have 2: "asc ''class='' @ quote # v \<in> lang (lits ''class='' @ Lit quote # p)"
    using 1 by (rule lang_litsI)
  have 3: "[0x20] @ asc ''class='' @ quote # v \<in>
             lang (Plus Space # lits ''class='' @ Lit quote # p)"
    by (rule lang_PlusI, simp, simp add: is_space_def, rule 2)
  have "asc ''<i'' @ [0x20] @ asc ''class='' @ quote # v \<in>
             lang (lits ''<i'' @ Plus Space # lits ''class='' @ Lit quote # p)"
    using 3 by (rule lang_litsI)
  then show ?thesis by (simp add: head_items_def asc_def quote_def)
qed

lemma prefix_items_fas:
  assumes "v \<in> lang p"
  shows "asc ''fas '' @ v \<in> lang (prefix_items @ p)"
proof -
  have 1: "[0x20] @ v \<in> lang (Plus Space # p)"
    by (rule lang_PlusI, simp, simp add: is_space_def, rule assms)
  have 2: "of_char CHR ''s'' # [0x20] @ v \<in> lang (One (AnyOf (asc ''srb'')) # Plus Space # p)"
    by (rule lang_OneI, simp add: asc_def, rule 1)
  have "asc ''fa'' @ of_char CHR ''s'' # [0x20] @ v \<in>
          lang (lits ''fa'' @ One (AnyOf (asc ''srb'')) # Plus Space # p)"
    using 2 by (rule lang_litsI)
  then show ?thesis by (simp add: prefix_items_def asc_def)
qed

lemma element_in_pattern2:
  assumes "quote \<notin> set (asc sfx)"
  shows "icon_element ''fas'' (fa @ sfx) \<in> lang (pattern2 fa)"
proof -
  have 1: "asc sfx @ asc ''\"></i>'' \<in> lang (Star (NoneOf [quote]) # tail_items)"
    by (rule lang_StarI) (use assms tail_items_plain in auto)
  have 2: "asc fa @ asc sfx @ asc ''\"></i>'' \<in>
             lang (lits fa @ Star (NoneOf [quote]) # tail_items)"
    using 1 by (rule lang_litsI)
  have 3: "asc ''fas '' @ asc fa @ asc sfx @ asc ''\"></i>'' \<in>
             lang (prefix_items @ lits fa @ Star (NoneOf [quote]) # tail_items)"
    using 2 by (rule prefix_items_fas)
  have 4: "asc ''fas '' @ asc fa @ asc sfx @ asc ''\"></i>'' \<in>
             lang (Star (NoneOf [quote]) # prefix_items @ lits fa @
                   Star (NoneOf [quote]) # tail_items)"
    by (rule lang_skip, simp, rule 3)
  have "asc ''<i class=\"'' @ asc ''fas '' @ asc fa @ asc sfx @ asc ''\"></i>'' \<in>
             lang (head_items @ Star (NoneOf [quote]) # prefix_items @ lits fa @
                   Star (NoneOf [quote]) # tail_items)"
    using 4 by (rule head_items_plain)
  then show ?thesis by (simp add: pattern2_def icon_element_def asc_def)
qed

lemma broad_pattern_finds_extension:
  assumes "quote \<notin> set (asc sfx)"
  shows "findall (pattern2 fa) (icon_element ''fas'' (fa @ sfx)) \<noteq> []"
proof -
  have "bt (pattern2 fa) (icon_element ''fas'' (fa @ sfx)) \<noteq> None"
    using bt_complete [of _ _ "[]"] element_in_pattern2 [OF assms] by simp
  then show ?thesis by (rule bt_match_findall)
qed

section \<open>Pattern 2 on an element whose identifier extends the pattern's\<close>

lemma lang_appendD:
  "u \<in> lang (p @ q) \<Longrightarrow> \<exists>a b. u = a @ b \<and> a \<in> lang p \<and> b \<in> lang q"
  unfolding lang_append by blast

lemma space_not_quote: "\<forall>x\<in>set sp. is_space x \<Longrightarrow> count_list sp quote = 0"
  by (auto simp: count_list_0_iff is_space_def quote_def)

lemma head_items_count:
  assumes "h \<in> lang head_items"
  shows "count_list h quote = 1"
proof -
  from assms obtain sp where
    "h = asc ''<i'' @ sp @ asc ''class='' @ [quote]" "\<forall>x\<in>set sp. is_space x"
    by (auto simp: head_items_def lits_def asc_def)
  then show ?thesis
    using space_not_quote [of sp] by (simp add: asc_def quote_def)
qed

lemma prefix_items_count:
  assumes "pf \<in> lang prefix_items"
  shows "count_list pf quote = 0"
proof -
  from assms obtain c sp where
    "pf = asc ''fa'' @ [c] @ sp" "c \<in> set (asc ''srb'')" "\<forall>x\<in>set sp. is_space x"
    by (auto simp: prefix_items_def lits_def asc_def)
  then show ?thesis
    using space_not_quote [of sp] by (auto simp: asc_def quote_def)
qed

lemma tail_items_shape:
  assumes "tw \<in> lang tail_items"
  shows "\<exists>R. tw = quote # R \<and> 5 \<le> length R"
proof -
  have t: "tail_items = [Lit quote] @ ([Star Space, Opt style_attr, Star Space] @
             (map Lit (asc ''></i>'') @ [Star Space]))"
    by (simp add: tail_items_def lits_def asc_def)
  from assms obtain q R where q: "tw = q @ R" "q \<in> lang [Lit quote]" and
    R: "R \<in> lang ([Star Space, Opt style_attr, Star Space] @
             (map Lit (asc ''></i>'') @ [Star Space]))"
    unfolding t using lang_appendD by blast
  from lang_appendD [OF R] obtain a b where
    ab: "R = a @ b" "b \<in> lang (map Lit (asc ''></i>'') @ [Star Space])"
    by blast
  from lang_lits [OF ab(2)] obtain c where "b = asc ''></i>'' @ c" by blast
  with ab(1) have "5 \<le> length R" by (simp add: asc_def)
  moreover from q have "tw = quote # R" by simp
  ultimately show ?thesis by blast
qed

lemma star_not_quote: "x \<in> lang [Star (NoneOf [quote])] \<Longrightarrow> count_list x quote = 0"
  by (auto simp: count_list_0_iff)

lemma pattern2_shape:
  assumes "u \<in> lang (pattern2 fa)" and "quote \<notin> set (asc fa)"
  shows "\<exists>A R. u = A @ quote # R \<and> count_list A quote = 1 \<and> 5 \<le> length R"
proof -
  have p: "pattern2 fa = head_items @ ([Star (NoneOf [quote])] @ (prefix_items @
             (map Lit (asc fa) @ ([Star (NoneOf [quote])] @ tail_items))))"
    by (simp add: pattern2_def lits_def asc_def)
  from assms(1) have "u \<in> lang (head_items @ ([Star (NoneOf [quote])] @ (prefix_items @
             (map Lit (asc fa) @ ([Star (NoneOf [quote])] @ tail_items)))))"
    by (simp only: p)
  from lang_appendD [OF this] obtain h r1 where
    1: "u = h @ r1" "h \<in> lang head_items"
       "r1 \<in> lang ([Star (NoneOf [quote])] @ (prefix_items @
             (map Lit (asc fa) @ ([Star (NoneOf [quote])] @ tail_items))))"
    by blast
  from lang_appendD [OF 1(3)] obtain x1 r2 where
    2: "r1 = x1 @ r2" "x1 \<in> lang [Star (NoneOf [quote])]"
       "r2 \<in> lang (prefix_items @ (map Lit (asc fa) @ ([Star (NoneOf [quote])] @ tail_items)))"
    by blast
  from lang_appendD [OF 2(3)] obtain pf r3 where
    3: "r2 = pf @ r3" "pf \<in> lang prefix_items"
       "r3 \<in> lang (map Lit (asc fa) @ ([Star (NoneOf [quote])] @ tail_items))"
    by blast
  from lang_lits [OF 3(3)] obtain r4 where
    4: "r3 = asc fa @ r4" "r4 \<in> lang ([Star (NoneOf [quote])] @ tail_items)"
    by blast
  from lang_appendD [OF 4(2)] obtain x2 tw where
    5: "r4 = x2 @ tw" "x2 \<in> lang [Star (NoneOf [quote])]" "tw \<in> lang tail_items"
    by blast
  from tail_items_shape [OF 5(3)] obtain R where R: "tw = quote # R" "5 \<le> length R" by blast
  have fa0: "count_list (asc fa) quote = 0" using assms(2) by (simp add: count_list_0_iff)
  have "count_list (h @ x1 @ pf @ asc fa @ x2) quote = 1"
    using head_items_count [OF 1(2)] star_not_quote [OF 2(2)] prefix_items_count [OF 3(2)]
      star_not_quote [OF 5(2)] fa0
    by simp
  moreover have "u = (h @ x1 @ pf @ asc fa @ x2) @ quote # R"
    using 1(1) 2(1) 3(1) 4(1) 5(1) R(1) by simp
  ultimately show ?thesis using R(2) by blast
qed

lemma same_count_split:
  "A @ q # X = B @ q # Y \<Longrightarrow> count_list A q = count_list B q \<Longrightarrow> A = B \<and> X = Y"
proof (induction A arbitrary: B)
  case Nil
  show ?case
  proof (cases B)
    case Nil
    with Nil.prems show ?thesis by simp
  next
    case (Cons b B')
    with Nil.prems have "b = q" by simp
    with Cons Nil.prems(2) show ?thesis by simp
  qed
next
  case (Cons a A)
  show ?case
  proof (cases B)
    case Nil
    with Cons.prems(1) have "a = q" by simp
    with Nil Cons.prems(2) show ?thesis by simp
  next
    case (Cons b B')
    with Cons.prems(1) have ab: "a = b" and e: "A @ q # X = B' @ q # Y" by simp_all
    from Cons.prems(2) Cons ab have "count_list A q = count_list B' q"
      by (simp split: if_splits)
    from Cons.IH [OF e this] ab Cons show ?thesis by simp
  qed
qed

lemma element_shape:
  assumes "quote \<notin> set (asc fa)" and "quote \<notin> set (asc sfx)"
  shows "icon_element ''fas'' (fa @ sfx) =
           (asc ''<i class=\"fas '' @ asc fa @ asc sfx) @ quote # asc ''></i>''"
    and "count_list (asc ''<i class=\"fas '' @ asc fa @ asc sfx) quote = 1"
proof -
  show "icon_element ''fas'' (fa @ sfx) =
           (asc ''<i class=\"fas '' @ asc fa @ asc sfx) @ quote # asc ''></i>''"
    by (simp add: icon_element_def asc_def quote_def)
  have "count_list (asc fa) quote = 0" "count_list (asc sfx) quote = 0"
    using assms by (simp_all add: count_list_0_iff)
  moreover have "count_list (asc ''<i class=\"fas '') quote = 1"
    by (simp add: asc_def quote_def)
  ultimately show "count_list (asc ''<i class=\"fas '' @ asc fa @ asc sfx) quote = 1"
    by simp
qed

lemma bt_pattern2_element:
  assumes "quote \<notin> set (asc fa)" and "quote \<notin> set (asc sfx)"
  shows "bt (pattern2 fa) (icon_element ''fas'' (fa @ sfx)) = Some []"
proof -
  have "bt (pattern2 fa) (icon_element ''fas'' (fa @ sfx)) \<noteq> None"
    using bt_complete [of _ _ "[]"] element_in_pattern2 [OF assms(2)] by simp
  then obtain r where r: "bt (pattern2 fa) (icon_element ''fas'' (fa @ sfx)) = Some r" by auto
  from bt_sound [OF r] obtain u where
    u: "u \<in> lang (pattern2 fa)" "icon_element ''fas'' (fa @ sfx) = u @ r" by blast
  from pattern2_shape [OF u(1) assms(1)] obtain A R where
    A: "u = A @ quote # R" "count_list A quote = 1" "5 \<le> length R" by blast
  have "A @ quote # (R @ r) = (asc ''<i class=\"fas '' @ asc fa @ asc sfx) @ quote # asc ''></i>''"
    using u(2) A(1) element_shape(1) [OF assms] by simp
  from same_count_split [OF this] A(2) element_shape(2) [OF assms]
  have "R @ r = asc ''></i>''" by simp
  then have "length (R @ r) = length (asc ''></i>'')" by simp
  then have "length R + length r = 5" by (simp add: asc_def)
  with A(3) have "length r = 0" by linarith
  then have "r = []" by simp
  with r show ?thesis by simp
qed

lemma broad_pattern_takes_extension:
  assumes "quote \<notin> set (asc fa)" and "quote \<notin> set (asc sfx)"
  shows "apply_pattern (pattern2 fa) emoji (icon_element ''fas'' (fa @ sfx), n) =
           (emoji @ asc '' '', n + 1)"
proof -
  have e: "bt (pattern2 fa) [] = None"
    by (simp add: pattern2_def head_items_def lits_def)
  have l: "0 < length (icon_element ''fas'' (fa @ sfx))"
    by (simp add: icon_element_def asc_def)
  have f0: "findall (pattern2 fa) [] = []"
    by (subst findall.simps) (simp add: e)
  have s0: "re_sub (pattern2 fa) (emoji @ asc '' '') [] = []"
    by (subst re_sub.simps) (simp add: e)
  have f: "findall (pattern2 fa) (icon_element ''fas'' (fa @ sfx)) =
             [icon_element ''fas'' (fa @ sfx)]"
    by (subst findall.simps) (simp add: bt_pattern2_element [OF assms] l f0)
  have s: "re_sub (pattern2 fa) (emoji @ asc '' '') (icon_element ''fas'' (fa @ sfx)) =
             emoji @ asc '' ''"
    by (subst re_sub.simps) (simp add: bt_pattern2_element [OF assms] l s0)
  show ?thesis by (simp add: apply_pattern_def f s)
qed

section \<open>Identifiers that extend an earlier identifier\<close>

text \<open>
  C10. Pattern 2 of an identifier takes the whole element of any identifier that
  extends it: for every identifier \<open>fa\<close> and every continuation \<open>sfx\<close> without a double
  quote, pattern 2 of \<open>fa\<close> replaces \<open><i class="fas fa+sfx"></i>\<close> by the emoji of \<open>fa\<close>
  and a space and adds 1 to the count. In the table \<open>fa-calendar\<close> comes before
  \<open>fa-calendar-check\<close>: on \<open><i class="fas fa-calendar-check"></i>\<close> pattern 1 of
  \<open>fa-calendar\<close> finds nothing and pattern 2 of \<open>fa-calendar\<close> finds the whole element, so
  the file becomes the emoji of \<open>fa-calendar\<close> (U+1F4C5) and a space, not the emoji of
  \<open>fa-calendar-check\<close> (U+2705), and the count is 1.
\<close>

theorem calendar_check_replaced_as_calendar:
  "(quote \<notin> set (asc fa) \<and> quote \<notin> set (asc sfx) \<longrightarrow>
      apply_pattern (pattern2 fa) emoji (icon_element ''fas'' (fa @ sfx), n) =
        (emoji @ asc '' '', n + 1)) \<and>
   map_of ICON_MAP ''fa-calendar'' = Some [0x1F4C5] \<and>
   map_of ICON_MAP ''fa-calendar-check'' = Some [0x2705] \<and>
   findall (pattern1 ''fa-calendar'') (asc ''<i class=\"fas fa-calendar-check\"></i>'') = [] \<and>
   findall (pattern2 ''fa-calendar'') (asc ''<i class=\"fas fa-calendar-check\"></i>'') =
     [asc ''<i class=\"fas fa-calendar-check\"></i>''] \<and>
   substitute (asc ''<i class=\"fas fa-calendar-check\"></i>'') = ([0x1F4C5, 0x20], 1) \<and>
   replace_fontawesome_in_file
     (plain_store demo_file (asc ''<i class=\"fas fa-calendar-check\"></i>''), out) demo_file =
     (1,
      (plain_store demo_file (asc ''<i class=\"fas fa-calendar-check\"></i>''))
        \<lparr>accesses := [OpenRead demo_file, OpenWrite demo_file],
         files := [demo_file \<mapsto> [0x1F4C5, 0x20]]\<rparr>,
      out)"
proof -
  have cr: "0x0D \<notin> set (asc ''<i class=\"fas fa-calendar-check\"></i>'')"
    by (simp add: asc_def)
  have ne: "[0x1F4C5, 0x20] \<noteq> asc ''<i class=\"fas fa-calendar-check\"></i>''"
    by (simp add: asc_def)
  have f: "replace_fontawesome_in_file
     (plain_store demo_file (asc ''<i class=\"fas fa-calendar-check\"></i>''), out) demo_file =
     (1,
      (plain_store demo_file (asc ''<i class=\"fas fa-calendar-check\"></i>''))
        \<lparr>accesses := [OpenRead demo_file, OpenWrite demo_file],
         files := [demo_file \<mapsto> [0x1F4C5, 0x20]]\<rparr>,
      out)"
    using replace_readable [OF read_plain_store [OF cr] subst_calendar_check] ne
    by (simp add: plain_store_def)
  have p1: "findall (pattern1 ''fa-calendar'') (asc ''<i class=\"fas fa-calendar-check\"></i>'') = []"
    by (simp add: pat_defs findall.simps)
  have p2: "findall (pattern2 ''fa-calendar'') (asc ''<i class=\"fas fa-calendar-check\"></i>'') =
     [asc ''<i class=\"fas fa-calendar-check\"></i>'']"
    by (simp add: pat_defs findall.simps)
  have g: "quote \<notin> set (asc fa) \<and> quote \<notin> set (asc sfx) \<longrightarrow>
      apply_pattern (pattern2 fa) emoji (icon_element ''fas'' (fa @ sfx), n) =
        (emoji @ asc '' '', n + 1)"
    using broad_pattern_takes_extension by blast
  show ?thesis
    using g lookup_calendar subst_calendar_check f p1 p2 by simp
qed

theorem calendar_check_replaced_as_calendar_witness:
  "quote \<notin> set (asc ''fa-calendar'') \<and> quote \<notin> set (asc ''-check'') \<and>
   icon_element ''fas'' (''fa-calendar'' @ ''-check'') =
     asc ''<i class=\"fas fa-calendar-check\"></i>'' \<and>
   apply_pattern (pattern2 ''fa-calendar'') [0x1F4C5]
     (icon_element ''fas'' (''fa-calendar'' @ ''-check''), 0) = ([0x1F4C5, 0x20], 1)"
proof -
  have a: "quote \<notin> set (asc ''fa-calendar'')" by (simp add: asc_def quote_def)
  have b: "quote \<notin> set (asc ''-check'')" by (simp add: asc_def quote_def)
  have e: "icon_element ''fas'' (''fa-calendar'' @ ''-check'') =
     asc ''<i class=\"fas fa-calendar-check\"></i>''"
    by (simp add: icon_element_def asc_def)
  from calendar_check_replaced_as_calendar [of "''fa-calendar''" "''-check''" "[0x1F4C5]" 0] a b
  have "apply_pattern (pattern2 ''fa-calendar'') [0x1F4C5]
     (icon_element ''fas'' (''fa-calendar'' @ ''-check''), 0) = ([0x1F4C5] @ asc '' '', 0 + 1)"
    by blast
  then show ?thesis using a b e by (simp add: asc_def)
qed

section \<open>A single icon element\<close>

text \<open>The two examples of the specification.\<close>

lemma trash_example:
  "replace_fontawesome_in_file
     (plain_store demo_file (asc ''<i class=\"fas fa-trash\"></i>''), out) demo_file =
     (1,
      (plain_store demo_file (asc ''<i class=\"fas fa-trash\"></i>''))
        \<lparr>accesses := [OpenRead demo_file, OpenWrite demo_file],
         files := [demo_file \<mapsto> [0x1F5D1, 0xFE0F, 0x20]]\<rparr>,
      out)"
proof -
  have cr: "0x0D \<notin> set (asc ''<i class=\"fas fa-trash\"></i>'')"
    by (simp add: asc_def)
  have ne: "[0x1F5D1, 0xFE0F, 0x20] \<noteq> asc ''<i class=\"fas fa-trash\"></i>''"
    by (simp add: asc_def)
  show ?thesis
    using replace_readable [OF read_plain_store [OF cr] subst_trash] ne
    by (simp add: plain_store_def)
qed

lemma save_style_example:
  "replace_fontawesome_in_file
     (plain_store demo_file (asc ''<i class=\"fas fa-save\" style=\"color:red\"></i>''), out)
     demo_file =
     (1,
      (plain_store demo_file (asc ''<i class=\"fas fa-save\" style=\"color:red\"></i>''))
        \<lparr>accesses := [OpenRead demo_file, OpenWrite demo_file],
         files := [demo_file \<mapsto> [0x1F4BE, 0x20]]\<rparr>,
      out)"
proof -
  have cr: "0x0D \<notin> set (asc ''<i class=\"fas fa-save\" style=\"color:red\"></i>'')"
    by (simp add: asc_def)
  have ne: "[0x1F4BE, 0x20] \<noteq> asc ''<i class=\"fas fa-save\" style=\"color:red\"></i>''"
    by (simp add: asc_def)
  show ?thesis
    using replace_readable [OF read_plain_store [OF cr] subst_save_style] ne
    by (simp add: plain_store_def)
qed

text \<open>
  C1. The table maps \<open>fa-users\<close> to U+1F465. The file \<open><i class="fas fa-users"></i>\<close> is
  one element in the narrow form with that identifier, and it is rewritten to U+1F464,
  the emoji of \<open>fa-user\<close>, and a space, with count 1.
\<close>

theorem users_element_gets_user_emoji:
  "map_of ICON_MAP ''fa-users'' = Some [0x1F465] \<and>
   findall (pattern1 ''fa-users'') (asc ''<i class=\"fas fa-users\"></i>'') =
     [asc ''<i class=\"fas fa-users\"></i>''] \<and>
   replace_fontawesome_in_file
     (plain_store demo_file (asc ''<i class=\"fas fa-users\"></i>''), out) demo_file =
     (1,
      (plain_store demo_file (asc ''<i class=\"fas fa-users\"></i>''))
        \<lparr>accesses := [OpenRead demo_file, OpenWrite demo_file],
         files := [demo_file \<mapsto> [0x1F464, 0x20]]\<rparr>,
      out)"
proof -
  have cr: "0x0D \<notin> set (asc ''<i class=\"fas fa-users\"></i>'')"
    by (simp add: asc_def)
  have ne: "[0x1F464, 0x20] \<noteq> asc ''<i class=\"fas fa-users\"></i>''"
    by (simp add: asc_def)
  have f: "replace_fontawesome_in_file
     (plain_store demo_file (asc ''<i class=\"fas fa-users\"></i>''), out) demo_file =
     (1,
      (plain_store demo_file (asc ''<i class=\"fas fa-users\"></i>''))
        \<lparr>accesses := [OpenRead demo_file, OpenWrite demo_file],
         files := [demo_file \<mapsto> [0x1F464, 0x20]]\<rparr>,
      out)"
    using replace_readable [OF read_plain_store [OF cr] subst_users] ne
    by (simp add: plain_store_def)
  have p1: "findall (pattern1 ''fa-users'') (asc ''<i class=\"fas fa-users\"></i>'') =
     [asc ''<i class=\"fas fa-users\"></i>'']"
    by (simp add: pat_defs findall.simps)
  show ?thesis
    using lookup_users f p1 by simp
qed

text \<open>
  C2. The table maps \<open>fa-folder-open\<close> to U+1F4C2. A file with the one element
  \<open><i class="far fa-folder-open"></i>\<close> in a paragraph is rewritten with U+1F4C1, the
  emoji of \<open>fa-folder\<close>, with count 1; rewriting the result again changes nothing and
  returns 0.
\<close>

theorem folder_open_element_two_passes:
  "map_of ICON_MAP ''fa-folder-open'' = Some [0x1F4C2] \<and>
   replace_fontawesome_in_file
     (plain_store demo_file (asc ''<p><i class=\"far fa-folder-open\"></i> Files</p>''), out)
     demo_file =
     (1,
      (plain_store demo_file (asc ''<p><i class=\"far fa-folder-open\"></i> Files</p>''))
        \<lparr>accesses := [OpenRead demo_file, OpenWrite demo_file],
         files := [demo_file \<mapsto> asc ''<p>'' @ [0x1F4C1] @ asc '' Files</p>'']\<rparr>,
      out) \<and>
   replace_fontawesome_in_file
     (plain_store demo_file (asc ''<p>'' @ [0x1F4C1] @ asc '' Files</p>''), out) demo_file =
     (0,
      (plain_store demo_file (asc ''<p>'' @ [0x1F4C1] @ asc '' Files</p>''))
        \<lparr>accesses := [OpenRead demo_file]\<rparr>,
      out)"
proof -
  have cr1: "0x0D \<notin> set (asc ''<p><i class=\"far fa-folder-open\"></i> Files</p>'')"
    by (simp add: asc_def)
  have ne: "asc ''<p>'' @ [0x1F4C1] @ asc '' Files</p>'' \<noteq>
            asc ''<p><i class=\"far fa-folder-open\"></i> Files</p>''"
    by (simp add: asc_def)
  have f1: "replace_fontawesome_in_file
     (plain_store demo_file (asc ''<p><i class=\"far fa-folder-open\"></i> Files</p>''), out)
     demo_file =
     (1,
      (plain_store demo_file (asc ''<p><i class=\"far fa-folder-open\"></i> Files</p>''))
        \<lparr>accesses := [OpenRead demo_file, OpenWrite demo_file],
         files := [demo_file \<mapsto> asc ''<p>'' @ [0x1F4C1] @ asc '' Files</p>'']\<rparr>,
      out)"
    using replace_readable [OF read_plain_store [OF cr1] subst_folder_open] ne
    by (simp add: plain_store_def)
  have cr2: "0x0D \<notin> set (asc ''<p>'' @ [0x1F4C1] @ asc '' Files</p>'')"
    by (simp add: asc_def)
  have f2: "replace_fontawesome_in_file
     (plain_store demo_file (asc ''<p>'' @ [0x1F4C1] @ asc '' Files</p>''), out) demo_file =
     (0,
      (plain_store demo_file (asc ''<p>'' @ [0x1F4C1] @ asc '' Files</p>''))
        \<lparr>accesses := [OpenRead demo_file]\<rparr>,
      out)"
    using replace_readable [OF read_plain_store [OF cr2] subst_folder_again]
    by (simp add: plain_store_def)
  show ?thesis
    using lookup_folder_open f1 f2 by simp
qed

section \<open>A file in which nothing matches\<close>

lemma findall_Nil_iff:
  "findall p (x # xs) = [] \<longleftrightarrow> bt p (x # xs) = None \<and> findall p xs = []"
  by (simp add: findall.simps [of p "x # xs"] split: option.splits)

lemma re_sub_no_match: "findall p s = [] \<Longrightarrow> re_sub p repl s = s"
proof (induction s)
  case Nil
  then show ?case
    by (simp add: findall.simps [of p "[]"] re_sub.simps [of p repl "[]"] split: option.splits)
next
  case (Cons x xs)
  then have "bt p (x # xs) = None" "findall p xs = []" by (simp_all add: findall_Nil_iff)
  then show ?case using Cons.IH by (simp add: re_sub.simps [of p repl "x # xs"])
qed

lemma apply_pattern_no_match: "findall p c = [] \<Longrightarrow> apply_pattern p e (c, n) = (c, n)"
  by (simp add: apply_pattern_def)

lemma loop_no_match:
  "\<forall>(fa, e)\<in>set es. findall (pattern1 fa) c = [] \<and> findall (pattern2 fa) c = [] \<Longrightarrow>
   foldl (\<lambda>st entry. icon_step entry st) (c, n) es = (c, n)"
  by (induction es) (auto simp: icon_step_def apply_pattern_no_match)

lemma substitute_no_match:
  assumes "\<forall>(fa, e)\<in>set ICON_MAP. findall (pattern1 fa) c = [] \<and> findall (pattern2 fa) c = []"
    and "findall spinner_pattern c = []"
  shows "substitute c = (c, 0)"
  by (simp add: substitute_def loop_no_match [OF assms(1)] re_sub_no_match [OF assms(2)])

lemma unmatched_iff:
  "unmatched c es \<longleftrightarrow>
   (\<forall>(fa, e)\<in>set es. findall (pattern1 fa) c = [] \<and> findall (pattern2 fa) c = [])"
  by (induction es) auto

lemma unmatched_append: "unmatched c (a @ b) = (unmatched c a \<and> unmatched c b)"
  by (induction a) auto

lemma unmatched_Nil: "unmatched c [] = True"
  by simp

lemma unmatched_eval:
  "unmatched c ((fa, e) # es) =
     (if occurs_in (asc fa) c
      then findall (pattern1 fa) c = [] \<and> findall (pattern2 fa) c = [] \<and> unmatched c es
      else unmatched c es)"
  using absent_no_match by simp

lemmas unmatched_run = unmatched_Nil unmatched_eval group_defs pat_defs findall.simps

text \<open>
  C7. When the file is read and none of the patterns matches its content (neither
  pattern of any table entry, nor the special case), the function returns 0, prints
  nothing, and leaves the store as it was: the one access is the read, and no file is
  opened for writing.
\<close>

theorem no_match_no_write:
  assumes "fst (read_text fs p) = Inr content"
    and "\<forall>(fa, e)\<in>set ICON_MAP.
           findall (pattern1 fa) content = [] \<and> findall (pattern2 fa) content = []"
    and "findall spinner_pattern content = []"
  shows "replace_fontawesome_in_file (fs, out) p =
           (0, fs\<lparr>accesses := accesses fs @ [OpenRead p]\<rparr>, out)"
  using replace_readable [OF assms(1) substitute_no_match [OF assms(2,3)]] by simp

lemma hello_no_match:
  "\<forall>(fa, e)\<in>set ICON_MAP.
      findall (pattern1 fa) (asc ''<p>Hello</p>'') = [] \<and>
      findall (pattern2 fa) (asc ''<p>Hello</p>'') = []"
proof -
  have "unmatched (asc ''<p>Hello</p>'') ICON_MAP"
    unfolding ICON_MAP_def unmatched_append
    by (simp del: unmatched.simps add: unmatched_run)
  then show ?thesis by (simp only: unmatched_iff)
qed

theorem no_match_no_write_witness:
  "fst (read_text (plain_store demo_file (asc ''<p>Hello</p>'')) demo_file)
     = Inr (asc ''<p>Hello</p>'') \<and>
   unmatched (asc ''<p>Hello</p>'') ICON_MAP \<and>
   findall spinner_pattern (asc ''<p>Hello</p>'') = [] \<and>
   replace_fontawesome_in_file (plain_store demo_file (asc ''<p>Hello</p>''), []) demo_file
     = (0, (plain_store demo_file (asc ''<p>Hello</p>''))\<lparr>accesses := [OpenRead demo_file]\<rparr>, [])"
proof -
  have r: "fst (read_text (plain_store demo_file (asc ''<p>Hello</p>'')) demo_file)
     = Inr (asc ''<p>Hello</p>'')"
    by (rule read_plain_store) (simp add: asc_def)
  have s: "findall spinner_pattern (asc ''<p>Hello</p>'') = []"
    by (simp add: pat_defs findall.simps)
  have a: "accesses (plain_store demo_file (asc ''<p>Hello</p>'')) = []"
    by (simp add: plain_store_def)
  have u: "unmatched (asc ''<p>Hello</p>'') ICON_MAP"
    using hello_no_match by (simp only: unmatched_iff)
  from no_match_no_write [OF r hello_no_match s, of "[]"] r u s a
  show ?thesis by simp
qed

section \<open>The spinner special case\<close>

lemma star_stop:
  "\<forall>x\<in>set a. mem cs x \<Longrightarrow> \<not> mem cs y \<Longrightarrow> bt p (y # t) = Some r \<Longrightarrow>
   bt (Star cs # p) (a @ y # t) = Some r"
  by (induction a) auto

lemma bt_spinner_element:
  assumes "0x3E \<notin> set attrs"
  shows "bt spinner_pattern (spin_element attrs @ post) = Some post"
proof -
  have "bt [Star (NoneOf [62]), Lit 62, Lit 60, Lit 47, Lit 105, Lit 62]
          (attrs @ 62 # 60 # 47 # 105 # 62 # post) = Some post"
    by (rule star_stop) (use assms in auto)
  then show ?thesis
    by (simp add: spin_element_def pat_defs)
qed

lemma re_sub_skip:
  "c \<notin> set pre \<Longrightarrow> re_sub (Lit c # p) repl (pre @ s) = pre @ re_sub (Lit c # p) repl s"
  by (induction pre) (auto simp: re_sub.simps [of _ _ "x # xs" for x xs])

lemma spinner_pattern_head: "\<exists>p. spinner_pattern = Lit 0x3C # p"
  by (simp add: pat_defs)

lemma re_sub_spinner_element:
  assumes "0x3C \<notin> set pre" and "0x3E \<notin> set attrs"
  shows "re_sub spinner_pattern hourglass (pre @ spin_element attrs @ post) =
           pre @ hourglass @ re_sub spinner_pattern hourglass post"
proof -
  obtain p where p: "spinner_pattern = Lit 0x3C # p" using spinner_pattern_head by blast
  have "re_sub spinner_pattern hourglass (pre @ spin_element attrs @ post) =
        pre @ re_sub spinner_pattern hourglass (spin_element attrs @ post)"
    unfolding p by (rule re_sub_skip [OF assms(1)])
  moreover have "length post < length (spin_element attrs @ post)"
    by (simp add: spin_element_def asc_def)
  then have "re_sub spinner_pattern hourglass (spin_element attrs @ post) =
        hourglass @ re_sub spinner_pattern hourglass post"
    by (simp add: re_sub.simps [of _ _ "spin_element attrs @ post"]
        bt_spinner_element [OF assms(2)])
  ultimately show ?thesis by simp
qed

text \<open>
  C3, the claim as stated fails: the element whose class is exactly
  \<open>fas fa-spinner fa-spin\<close>, with nothing else in the tag, is taken by pattern 1 of
  \<open>fa-spinner\<close> in the loop over the table. The result is the hourglass followed by a
  space, with count 1, and not the hourglass alone.
\<close>

theorem plain_spinner_gets_trailing_space:
  "findall (pattern1 ''fa-spinner'') (spin_element []) = [spin_element []] \<and>
   substitute (spin_element []) = (hourglass @ asc '' '', 1) \<and>
   fst (substitute (spin_element [])) \<noteq> hourglass \<and>
   replace_fontawesome_in_file (plain_store demo_file (spin_element []), []) demo_file =
     (1,
      (plain_store demo_file (spin_element []))
        \<lparr>accesses := [OpenRead demo_file, OpenWrite demo_file],
         files := [demo_file \<mapsto> hourglass @ asc '' '']\<rparr>,
      [])"
proof -
  have p1: "findall (pattern1 ''fa-spinner'') (spin_element []) = [spin_element []]"
    by (simp add: spin_element_def pat_defs findall.simps)
  have s: "substitute (spin_element []) = (hourglass @ asc '' '', 1)"
    by (simp add: subst_spin_plain hourglass_def asc_def)
  have cr: "0x0D \<notin> set (spin_element [])"
    by (simp add: spin_element_def asc_def)
  have ne: "hourglass @ asc '' '' \<noteq> spin_element []"
    by (simp add: spin_element_def asc_def hourglass_def)
  have f: "replace_fontawesome_in_file (plain_store demo_file (spin_element []), []) demo_file =
     (1,
      (plain_store demo_file (spin_element []))
        \<lparr>accesses := [OpenRead demo_file, OpenWrite demo_file],
         files := [demo_file \<mapsto> hourglass @ asc '' '']\<rparr>,
      [])"
    using replace_readable [OF read_plain_store [OF cr] s] ne
    by (simp add: plain_store_def)
  have n: "fst (substitute (spin_element [])) \<noteq> hourglass"
    unfolding s by (simp add: hourglass_def asc_def)
  show ?thesis using p1 s n f by simp
qed

text \<open>
  Every text the special pattern matches starts with \<open><\<close>, holds no further \<open><\<close> and no
  \<open>>\<close> up to the closing quote of the class attribute, and ends with the first \<open>>\<close>
  followed by \<open></i>\<close>.
\<close>

lemma substitute_icon_loop:
  "substitute c = (re_sub spinner_pattern hourglass (fst (icon_loop c)), snd (icon_loop c))"
  by (simp add: substitute_def icon_loop_def split: prod.splits)

lemma space_plain: "\<forall>x\<in>set sp. is_space x \<Longrightarrow> 0x3C \<notin> set sp \<and> 0x3E \<notin> set sp"
  by (auto simp: is_space_def)

lemma head_items_form:
  assumes "h \<in> lang head_items"
  shows "\<exists>y. h = 0x3C # y \<and> 0x3C \<notin> set y \<and> 0x3E \<notin> set y"
proof -
  from assms obtain sp where
    "h = asc ''<i'' @ sp @ asc ''class='' @ [quote]" "\<forall>x\<in>set sp. is_space x"
    by (auto simp: head_items_def lits_def asc_def)
  then show ?thesis
    using space_plain [of sp] by (simp add: asc_def quote_def)
qed

lemma spaces_form:
  assumes "w \<in> lang (Plus Space # p)"
  shows "\<exists>sp v. w = sp @ v \<and> 0x3C \<notin> set sp \<and> 0x3E \<notin> set sp \<and> v \<in> lang p"
proof -
  from lang_ConsE [OF assms] obtain sp v where
    "w = sp @ v" "sp \<in> lang_item (Plus Space)" "v \<in> lang p" by blast
  then show ?thesis using space_plain [of sp] by auto
qed

lemma spinner_shape:
  assumes "u \<in> lang spinner_pattern"
  shows "\<exists>y a. u = (0x3C # y) @ a @ asc ''></i>'' \<and> 0x3C \<notin> set y \<and> 0x3E \<notin> set y \<and>
           0x3E \<notin> set a \<and> occurs_in (asc ''fa-spinner'') y"
proof -
  let ?p8 = "map Lit (asc ''></i>'') @ []"
  let ?p7 = "[Star (NoneOf (asc ''>''))] @ ?p8"
  let ?p6 = "Lit quote # ?p7"
  let ?p5 = "map Lit (asc ''fa-spin'') @ ?p6"
  let ?p4 = "Plus Space # ?p5"
  let ?p3 = "map Lit (asc ''fa-spinner'') @ ?p4"
  let ?p2 = "Plus Space # ?p3"
  let ?p1 = "map Lit (asc ''fas'') @ ?p2"
  have "spinner_pattern = head_items @ ?p1"
    by (simp add: spinner_pattern_def lits_def asc_def)
  with assms have "u \<in> lang (head_items @ ?p1)" by simp
  from lang_appendD [OF this] obtain h r1 where
    1: "u = h @ r1" "h \<in> lang head_items" "r1 \<in> lang ?p1"
    by blast
  from lang_lits [OF 1(3)] obtain r2 where
    2: "r1 = asc ''fas'' @ r2" "r2 \<in> lang ?p2"
    by blast
  from spaces_form [OF 2(2)] obtain s1 r3 where
    3: "r2 = s1 @ r3" "0x3C \<notin> set s1" "0x3E \<notin> set s1" "r3 \<in> lang ?p3"
    by blast
  from lang_lits [OF 3(4)] obtain r4 where
    4: "r3 = asc ''fa-spinner'' @ r4" "r4 \<in> lang ?p4"
    by blast
  from spaces_form [OF 4(2)] obtain s2 r5 where
    5: "r4 = s2 @ r5" "0x3C \<notin> set s2" "0x3E \<notin> set s2" "r5 \<in> lang ?p5"
    by blast
  from lang_lits [OF 5(4)] obtain r6 where
    6: "r5 = asc ''fa-spin'' @ r6" "r6 \<in> lang ?p6"
    by blast
  from lang_ConsE [OF 6(2)] obtain q r7 where
    7: "r6 = q @ r7" "q \<in> lang_item (Lit quote)" "r7 \<in> lang ?p7"
    by blast
  from lang_appendD [OF 7(3)] obtain a r8 where
    8: "r7 = a @ r8" "a \<in> lang [Star (NoneOf (asc ''>''))]" "r8 \<in> lang ?p8"
    by blast
  from lang_lits [OF 8(3)] have r8: "r8 = asc ''></i>''" by auto
  from head_items_form [OF 1(2)] obtain y0 where
    y0: "h = 0x3C # y0" "0x3C \<notin> set y0" "0x3E \<notin> set y0" by blast
  let ?y = "y0 @ asc ''fas'' @ s1 @ asc ''fa-spinner'' @ s2 @ asc ''fa-spin'' @ [quote]"
  have u: "u = (0x3C # ?y) @ a @ asc ''></i>''"
    using 1(1) 2(1) 3(1) 4(1) 5(1) 6(1) 7(1,2) 8(1) r8 y0(1) by simp
  have c: "0x3C \<notin> set ?y" "0x3E \<notin> set ?y"
    using y0(2,3) 3(2,3) 5(2,3) by (simp_all add: asc_def quote_def)
  have a: "0x3E \<notin> set a" using 8(2) by (auto simp: asc_def)
  have o: "occurs_in (asc ''fa-spinner'') ?y"
    unfolding occurs_in_iff
    by (rule exI [of _ "y0 @ asc ''fas'' @ s1"], rule exI [of _ "s2 @ asc ''fa-spin'' @ [quote]"])
       simp
  show ?thesis using u c a o by blast
qed

lemma no_match_begins:
  assumes shape: "\<And>u. u \<in> lang p \<Longrightarrow>
                    \<exists>y v. u = (0x3C # y) @ v \<and> 0x3C \<notin> set y \<and> occurs_in w y"
    and absent: "\<not> occurs_in w (p0 @ s)" and ne: "s \<noteq> []"
  shows "bt p (s @ 0x3C # rest) = None"
proof (rule ccontr)
  assume "bt p (s @ 0x3C # rest) \<noteq> None"
  then obtain r where "bt p (s @ 0x3C # rest) = Some r" by auto
  from bt_sound [OF this] obtain u where u: "u \<in> lang p" "s @ 0x3C # rest = u @ r" by blast
  from shape [OF u(1)] obtain y v where
    y: "u = (0x3C # y) @ v" "0x3C \<notin> set y" "occurs_in w y" by blast
  from u(2) y(1) have "s @ (0x3C # rest) = (0x3C # y) @ (v @ r)" by simp
  then obtain t where
    t: "s = (0x3C # y) @ t \<and> t @ 0x3C # rest = v @ r \<or>
        s @ t = 0x3C # y \<and> 0x3C # rest = t @ v @ r"
    unfolding append_eq_append_conv2 by blast
  from y(3) obtain a b where ab: "y = a @ w @ b" unfolding occurs_in_iff by blast
  from t show False
  proof
    assume "s = (0x3C # y) @ t \<and> t @ 0x3C # rest = v @ r"
    then have "p0 @ s = (p0 @ 0x3C # a) @ w @ (b @ t)" using ab by simp
    then have "occurs_in w (p0 @ s)" unfolding occurs_in_iff by blast
    with absent show False by simp
  next
    assume c: "s @ t = 0x3C # y \<and> 0x3C # rest = t @ v @ r"
    show False
    proof (cases t)
      case Nil
      with c have "p0 @ s = (p0 @ 0x3C # a) @ w @ b" using ab by simp
      then have "occurs_in w (p0 @ s)" unfolding occurs_in_iff by blast
      with absent show False by simp
    next
      case (Cons x xs)
      with c have "x = 0x3C" by simp
      moreover from ne obtain s0 s' where "s = s0 # s'" by (cases s) auto
      with c have "y = s' @ t" by simp
      ultimately have "0x3C \<in> set y" using Cons by simp
      with y(2) show False by simp
    qed
  qed
qed

lemma re_sub_prefix_unmatched:
  assumes "\<And>p0 s. pre = p0 @ s \<Longrightarrow> s \<noteq> [] \<Longrightarrow> bt p (s @ rest) = None"
  shows "re_sub p repl (pre @ rest) = pre @ re_sub p repl rest"
  using assms
proof (induction pre)
  case Nil
  show ?case by simp
next
  case (Cons x xs)
  have n: "bt p ((x # xs) @ rest) = None" using Cons.prems [of "[]" "x # xs"] by simp
  have "\<And>p0 s. xs = p0 @ s \<Longrightarrow> s \<noteq> [] \<Longrightarrow> bt p (s @ rest) = None"
    using Cons.prems [of "x # p0" for p0] by simp
  from Cons.IH [OF this] have "re_sub p repl (xs @ rest) = xs @ re_sub p repl rest" .
  then show ?case
    using n by (simp add: re_sub.simps [of p repl "x # xs @ rest"])
qed

lemma findall_prefix_unmatched:
  assumes "\<And>p0 s. pre = p0 @ s \<Longrightarrow> s \<noteq> [] \<Longrightarrow> bt p (s @ rest) = None"
  shows "findall p (pre @ rest) = findall p rest"
  using assms
proof (induction pre)
  case Nil
  show ?case by simp
next
  case (Cons x xs)
  have n: "bt p ((x # xs) @ rest) = None" using Cons.prems [of "[]" "x # xs"] by simp
  have "\<And>p0 s. xs = p0 @ s \<Longrightarrow> s \<noteq> [] \<Longrightarrow> bt p (s @ rest) = None"
    using Cons.prems [of "x # p0" for p0] by simp
  from Cons.IH [OF this] have "findall p (xs @ rest) = findall p rest" .
  then show ?case
    using n by (simp add: findall.simps [of p "x # xs @ rest"])
qed

lemma spin_element_Cons: "\<exists>e. spin_element attrs @ post = 0x3C # 0x69 # e"
  by (simp add: spin_element_def asc_def)

lemma spinner_shape_start:
  assumes "u \<in> lang spinner_pattern"
  shows "\<exists>y v. u = (0x3C # y) @ v \<and> 0x3C \<notin> set y \<and> occurs_in (asc ''fa-spinner'') y"
  using spinner_shape [OF assms] by blast

lemma re_sub_spinner_exact:
  assumes "\<not> occurs_in (asc ''fa-spinner'') pre" and "0x3E \<notin> set attrs"
  shows "re_sub spinner_pattern hourglass (pre @ spin_element attrs @ post) =
           pre @ hourglass @ re_sub spinner_pattern hourglass post"
proof -
  obtain e where e: "spin_element attrs @ post = 0x3C # e"
    using spin_element_Cons by blast
  have "\<And>p0 s. pre = p0 @ s \<Longrightarrow> s \<noteq> [] \<Longrightarrow>
          bt spinner_pattern (s @ spin_element attrs @ post) = None"
    unfolding e using no_match_begins [OF spinner_shape_start] assms(1) by blast
  from re_sub_prefix_unmatched [OF this]
  have "re_sub spinner_pattern hourglass (pre @ spin_element attrs @ post) =
          pre @ re_sub spinner_pattern hourglass (spin_element attrs @ post)"
    by simp
  moreover have "re_sub spinner_pattern hourglass (spin_element attrs @ post) =
          hourglass @ re_sub spinner_pattern hourglass post"
    using re_sub_spinner_element [of "[]" attrs post] assms(2) by simp
  ultimately show ?thesis by simp
qed

lemma first_gt_split:
  fixes A B X Y :: str
  assumes "A @ 0x3E # X = B @ 0x3E # Y" and "0x3E \<notin> set A" and "0x3E \<notin> set B"
  shows "A = B \<and> X = Y"
proof -
  have "count_list A 0x3E = count_list B 0x3E"
    using assms(2,3) by (simp add: count_list_0_iff)
  from same_count_split [OF assms(1) this] show ?thesis .
qed

lemma close_tag_straddle:
  fixes t r e :: str
  assumes "asc ''</i>'' = P2 @ t" and "t @ r = 0x3C # 0x69 # e"
  shows "t = []"
  using assms by (auto simp: asc_def Cons_eq_append_conv)

lemma spinner_match_end:
  assumes "0x3E \<notin> set attrs"
    and "bt spinner_pattern (pre @ spin_element attrs @ post) = Some r"
  shows "r = post \<or> (\<exists>t. r = t @ spin_element attrs @ post \<and> length t < length pre)"
proof -
  from bt_sound [OF assms(2)] obtain u where
    u: "u \<in> lang spinner_pattern" "pre @ spin_element attrs @ post = u @ r" by blast
  from spinner_shape [OF u(1)] obtain y a where
    ya: "u = (0x3C # y) @ a @ asc ''></i>''" "0x3E \<notin> set y" "0x3E \<notin> set a" by blast
  let ?A = "(0x3C # y) @ a"
  have A: "0x3E \<notin> set ?A" using ya(2,3) by simp
  have ur: "u @ r = ?A @ 0x3E # (asc ''</i>'' @ r)"
    using ya(1) by (simp add: asc_def)
  obtain e where e: "spin_element attrs @ post = 0x3C # 0x69 # e"
    using spin_element_Cons by blast
  show ?thesis
  proof (cases "0x3E \<in> set pre")
    case True
    from split_list_first [OF True] obtain P1 P2 where
      P: "pre = P1 @ 0x3E # P2" "0x3E \<notin> set P1" by blast
    have "?A @ 0x3E # (asc ''</i>'' @ r) = P1 @ 0x3E # (P2 @ spin_element attrs @ post)"
      using u(2) ur P(1) by simp
    from first_gt_split [OF this A P(2)]
    have eq: "asc ''</i>'' @ r = P2 @ spin_element attrs @ post" by simp
    then obtain t where
      t: "asc ''</i>'' = P2 @ t \<and> t @ r = spin_element attrs @ post \<or>
          asc ''</i>'' @ t = P2 \<and> r = t @ spin_element attrs @ post"
      unfolding append_eq_append_conv2 by blast
    from t show ?thesis
    proof
      assume c: "asc ''</i>'' = P2 @ t \<and> t @ r = spin_element attrs @ post"
      with e have "t = []" using close_tag_straddle by metis
      with c have "r = [] @ spin_element attrs @ post" by simp
      moreover have "length ([]::nat list) < length pre" using P(1) by simp
      ultimately show ?thesis by blast
    next
      assume c: "asc ''</i>'' @ t = P2 \<and> r = t @ spin_element attrs @ post"
      then have "length t < length pre" using P(1) by auto
      with c show ?thesis by blast
    qed
  next
    case False
    let ?E1 = "asc ''<i class=\"fas fa-spinner fa-spin\"'' @ attrs"
    have E: "spin_element attrs @ post = ?E1 @ 0x3E # (asc ''</i>'' @ post)"
      by (simp add: spin_element_def asc_def)
    have n: "0x3E \<notin> set (pre @ ?E1)" using False assms(1) by (simp add: asc_def)
    have "?A @ 0x3E # (asc ''</i>'' @ r) = (pre @ ?E1) @ 0x3E # (asc ''</i>'' @ post)"
      using u(2) ur E by simp
    from first_gt_split [OF this A n] have "r = post" by simp
    then show ?thesis by simp
  qed
qed

lemma spinner_pattern_consumes: "bt spinner_pattern s = Some r \<Longrightarrow> length r < length s"
proof -
  assume b: "bt spinner_pattern s = Some r"
  from bt_sound [OF b] obtain u where u: "u \<in> lang spinner_pattern" "s = u @ r" by blast
  from spinner_shape [OF u(1)] have "u \<noteq> []" by auto
  with u(2) show ?thesis by simp
qed

lemma re_sub_spinner_sync:
  assumes "0x3E \<notin> set attrs"
  shows "\<exists>X. re_sub spinner_pattern hourglass (pre @ spin_element attrs @ post) =
               X @ hourglass @ re_sub spinner_pattern hourglass post"
proof (induction "length pre" arbitrary: pre rule: less_induct)
  case less
  show ?case
  proof (cases "bt spinner_pattern (pre @ spin_element attrs @ post)")
    case None
    have "pre \<noteq> []"
    proof
      assume "pre = []"
      with None bt_spinner_element [OF assms, of post] show False by simp
    qed
    then obtain x xs where p: "pre = x # xs" by (cases pre) auto
    from less [of xs] p obtain X where
      X: "re_sub spinner_pattern hourglass (xs @ spin_element attrs @ post) =
            X @ hourglass @ re_sub spinner_pattern hourglass post"
      by auto
    have "re_sub spinner_pattern hourglass (pre @ spin_element attrs @ post) =
            x # re_sub spinner_pattern hourglass (xs @ spin_element attrs @ post)"
      using None p
      by (simp add: re_sub.simps [of spinner_pattern hourglass
                                     "x # xs @ spin_element attrs @ post"])
    then have "re_sub spinner_pattern hourglass (pre @ spin_element attrs @ post) =
            (x # X) @ hourglass @ re_sub spinner_pattern hourglass post"
      using X by simp
    then show ?thesis by blast
  next
    case (Some r)
    from spinner_pattern_consumes [OF Some]
    have l: "length r < length (pre @ spin_element attrs @ post)" .
    have s: "re_sub spinner_pattern hourglass (pre @ spin_element attrs @ post) =
            hourglass @ re_sub spinner_pattern hourglass r"
      using Some l
      by (simp add: re_sub.simps [of spinner_pattern hourglass
                                     "pre @ spin_element attrs @ post"])
    from spinner_match_end [OF assms Some]
    show ?thesis
    proof
      assume "r = post"
      with s have "re_sub spinner_pattern hourglass (pre @ spin_element attrs @ post) =
            [] @ hourglass @ re_sub spinner_pattern hourglass post" by simp
      then show ?thesis by blast
    next
      assume "\<exists>t. r = t @ spin_element attrs @ post \<and> length t < length pre"
      then obtain t where t: "r = t @ spin_element attrs @ post" "length t < length pre"
        by blast
      from less [OF t(2)] obtain X where
        "re_sub spinner_pattern hourglass (t @ spin_element attrs @ post) =
            X @ hourglass @ re_sub spinner_pattern hourglass post"
        by blast
      with s t(1) have "re_sub spinner_pattern hourglass (pre @ spin_element attrs @ post) =
            (hourglass @ X) @ hourglass @ re_sub spinner_pattern hourglass post"
        by simp
      then show ?thesis by blast
    qed
  qed
qed

lemma mem_Space: "mem Space = is_space"
  by (rule ext) simp

lemma bt_star_end: "bt [Star cs] s = Some (dropWhile (mem cs) s)"
  by (induction s) auto

lemma bt_pattern1_plain_spinner:
  "bt (pattern1 ''fa-spinner'') (spin_element [] @ post) = Some (dropWhile is_space post)"
proof -
  have "bt (pattern1 ''fa-spinner'') (spin_element [] @ post) =
          Some (dropWhile (mem Space) post)"
    by (simp add: pattern1_def head_items_def prefix_items_def tail_items_def style_attr_def
        lits_def asc_def quote_def spin_element_def bt_star_end is_space_def)
  then show ?thesis by (simp only: mem_Space)
qed

lemma prefix_items_form:
  assumes "pf \<in> lang prefix_items"
  shows "0x3C \<notin> set pf"
proof -
  from assms obtain c sp where
    "pf = asc ''fa'' @ [c] @ sp" "c \<in> set (asc ''srb'')" "\<forall>x\<in>set sp. is_space x"
    by (auto simp: prefix_items_def lits_def asc_def)
  then show ?thesis
    using space_plain [of sp] by (auto simp: asc_def)
qed

lemma pattern1_shape_start:
  assumes "u \<in> lang (pattern1 fa)" and "0x3C \<notin> set (asc fa)"
  shows "\<exists>y v. u = (0x3C # y) @ v \<and> 0x3C \<notin> set y \<and> occurs_in (asc fa) y"
proof -
  let ?q = "[Opt [Plus Space, Star (NoneOf [quote])]] @ tail_items"
  have "pattern1 fa = head_items @ (prefix_items @ (map Lit (asc fa) @ ?q))"
    by (simp add: pattern1_def lits_def asc_def)
  with assms(1) have "u \<in> lang (head_items @ (prefix_items @ (map Lit (asc fa) @ ?q)))"
    by simp
  from lang_appendD [OF this] obtain h r1 where
    1: "u = h @ r1" "h \<in> lang head_items" "r1 \<in> lang (prefix_items @ (map Lit (asc fa) @ ?q))"
    by blast
  from lang_appendD [OF 1(3)] obtain pf r2 where
    2: "r1 = pf @ r2" "pf \<in> lang prefix_items" "r2 \<in> lang (map Lit (asc fa) @ ?q)"
    by blast
  from lang_lits [OF 2(3)] obtain v where 3: "r2 = asc fa @ v" by blast
  from head_items_form [OF 1(2)] obtain y0 where
    y0: "h = 0x3C # y0" "0x3C \<notin> set y0" by blast
  have "u = (0x3C # (y0 @ pf @ asc fa)) @ v" using 1(1) 2(1) 3 y0(1) by simp
  moreover have "0x3C \<notin> set (y0 @ pf @ asc fa)"
    using y0(2) prefix_items_form [OF 2(2)] assms(2) by simp
  moreover have "occurs_in (asc fa) (y0 @ pf @ asc fa)"
    unfolding occurs_in_iff
    by (rule exI [of _ "y0 @ pf"], rule exI [of _ "[]"]) simp
  ultimately show ?thesis by blast
qed

lemma pattern1_takes_plain_spinner:
  assumes "\<not> occurs_in (asc ''fa-spinner'') pre"
  shows "apply_pattern (pattern1 ''fa-spinner'') hourglass (pre @ spin_element [] @ post, n) =
           (pre @ hourglass @ asc '' '' @
              re_sub (pattern1 ''fa-spinner'') (hourglass @ asc '' '') (dropWhile is_space post),
            n + 1 + length (findall (pattern1 ''fa-spinner'') (dropWhile is_space post)))"
proof -
  let ?p = "pattern1 ''fa-spinner''"
  let ?r = "dropWhile is_space post"
  obtain e where e: "spin_element [] @ post = 0x3C # e"
    using spin_element_Cons by blast
  have lt: "0x3C \<notin> set (asc ''fa-spinner'')" by (simp add: asc_def)
  have none: "\<And>p0 s. pre = p0 @ s \<Longrightarrow> s \<noteq> [] \<Longrightarrow> bt ?p (s @ spin_element [] @ post) = None"
    unfolding e using no_match_begins [OF pattern1_shape_start [OF _ lt]] assms by blast
  have l: "length ?r < length (spin_element [] @ post)"
    using length_dropWhile_le [of is_space post] by (simp add: spin_element_def asc_def)
  have f: "findall ?p (pre @ spin_element [] @ post) =
             take (length (spin_element [] @ post) - length ?r) (spin_element [] @ post) #
             findall ?p ?r"
    using findall_prefix_unmatched [OF none] l
    by (simp add: findall.simps [of ?p "spin_element [] @ post"] bt_pattern1_plain_spinner)
  have s: "re_sub ?p (hourglass @ asc '' '') (pre @ spin_element [] @ post) =
             pre @ (hourglass @ asc '' '') @ re_sub ?p (hourglass @ asc '' '') ?r"
    using re_sub_prefix_unmatched [OF none] l
    by (simp add: re_sub.simps [of ?p "hourglass @ asc '' ''" "spin_element [] @ post"]
        bt_pattern1_plain_spinner)
  show ?thesis by (simp add: apply_pattern_def f s)
qed

text \<open>
  C3, amended. The special case acts on what the loop over the table has left.
  Whenever the text after the loop holds a spinner element (class exactly
  \<open>fas fa-spinner fa-spin\<close>, then any text without \<open>>\<close> up to the end of the tag), the
  special case puts the hourglass, with no space after it, in the place of the element:
  the result is some text, the hourglass, and directly after it the text that followed the
  element, treated by the special case in the same way; the count is the one the loop
  returned. When \<open>fa-spinner\<close> does not occur before the element, the text before it is
  unchanged. The element with nothing else in its tag does not reach the special case:
  when pattern 1 of the \<open>fa-spinner\<close> entry is applied to a text that holds it, with no
  \<open>fa-spinner\<close> before it, the element and the whitespace after it become the hourglass
  and one space, and the element is counted.
\<close>

theorem spinner_left_by_loop_gets_bare_hourglass:
  "(icon_loop c = (pre @ spin_element attrs @ post, n) \<and> 0x3E \<notin> set attrs \<longrightarrow>
      (\<exists>X. substitute c = (X @ hourglass @ re_sub spinner_pattern hourglass post, n)) \<and>
      (\<not> occurs_in (asc ''fa-spinner'') pre \<longrightarrow>
         substitute c = (pre @ hourglass @ re_sub spinner_pattern hourglass post, n))) \<and>
   (\<not> occurs_in (asc ''fa-spinner'') before \<longrightarrow>
      apply_pattern (pattern1 ''fa-spinner'') hourglass
          (before @ spin_element [] @ after, m) =
        (before @ hourglass @ asc '' '' @
           re_sub (pattern1 ''fa-spinner'') (hourglass @ asc '' '') (dropWhile is_space after),
         m + 1 + length (findall (pattern1 ''fa-spinner'') (dropWhile is_space after))))"
proof -
  have 1: "\<exists>X. substitute c = (X @ hourglass @ re_sub spinner_pattern hourglass post, n)"
    if "icon_loop c = (pre @ spin_element attrs @ post, n)" "0x3E \<notin> set attrs"
    using re_sub_spinner_sync [OF that(2), of pre post] that(1)
    by (simp add: substitute_icon_loop)
  have 2: "substitute c = (pre @ hourglass @ re_sub spinner_pattern hourglass post, n)"
    if "icon_loop c = (pre @ spin_element attrs @ post, n)" "0x3E \<notin> set attrs"
       "\<not> occurs_in (asc ''fa-spinner'') pre"
    using re_sub_spinner_exact [OF that(3,2), of post] that(1)
    by (simp add: substitute_icon_loop)
  show ?thesis
    using 1 2 pattern1_takes_plain_spinner by blast
qed

lemma loop_save_then_spinner:
  "icon_loop (asc ''<i class=\"fas fa-save\"></i>'' @ spin_element (asc '' id=\"x\"'')) =
     ([0x1F4BE, 0x20] @ spin_element (asc '' id=\"x\"'') @ [], 1)"
  unfolding icon_loop_def ICON_MAP_def foldl_append spin_element_def
  by (simp add: group_defs pat_defs run_defs)

theorem spinner_left_by_loop_gets_bare_hourglass_witness:
  "icon_loop (asc ''<i class=\"fas fa-save\"></i>'' @ spin_element (asc '' id=\"x\"'')) =
     ([0x1F4BE, 0x20] @ spin_element (asc '' id=\"x\"'') @ [], 1) \<and>
   0x3E \<notin> set (asc '' id=\"x\"'') \<and>
   \<not> occurs_in (asc ''fa-spinner'') [0x1F4BE, 0x20] \<and>
   substitute (asc ''<i class=\"fas fa-save\"></i>'' @ spin_element (asc '' id=\"x\"'')) =
     ([0x1F4BE, 0x20, 0x23F3], 1) \<and>
   \<not> occurs_in (asc ''fa-spinner'') (asc ''<p>'') \<and>
   apply_pattern (pattern1 ''fa-spinner'') hourglass
     (asc ''<p>'' @ spin_element [] @ asc '' </p>'', 0) =
     (asc ''<p>'' @ [0x23F3, 0x20] @ asc ''</p>'', 1)"
proof -
  have a: "0x3E \<notin> set (asc '' id=\"x\"'')" by (simp add: asc_def)
  have b: "\<not> occurs_in (asc ''fa-spinner'') [0x1F4BE, 0x20]" by (simp add: asc_def)
  have d: "\<not> occurs_in (asc ''fa-spinner'') (asc ''<p>'')" by (simp add: asc_def)
  have r0: "re_sub spinner_pattern hourglass [] = []"
    by (simp add: pat_defs re_sub.simps)
  have w: "dropWhile is_space (asc '' </p>'') = asc ''</p>''"
    by (simp add: asc_def is_space_def)
  have r1: "re_sub (pattern1 ''fa-spinner'') (hourglass @ asc '' '') (asc ''</p>'') = asc ''</p>''"
    by (simp add: pat_defs re_sub.simps)
  have f1: "findall (pattern1 ''fa-spinner'') (asc ''</p>'') = []"
    by (simp add: pat_defs findall.simps)
  from spinner_left_by_loop_gets_bare_hourglass
         [of "asc ''<i class=\"fas fa-save\"></i>'' @ spin_element (asc '' id=\"x\"'')"
             "[0x1F4BE, 0x20]" "asc '' id=\"x\"''" "[]" 1 "asc ''<p>''" "asc '' </p>''" 0]
       loop_save_then_spinner a b d
  have s: "substitute (asc ''<i class=\"fas fa-save\"></i>'' @ spin_element (asc '' id=\"x\"'')) =
             ([0x1F4BE, 0x20] @ hourglass @ re_sub spinner_pattern hourglass [], 1)"
    and p: "apply_pattern (pattern1 ''fa-spinner'') hourglass
              (asc ''<p>'' @ spin_element [] @ asc '' </p>'', 0) =
            (asc ''<p>'' @ hourglass @ asc '' '' @
               re_sub (pattern1 ''fa-spinner'') (hourglass @ asc '' '')
                 (dropWhile is_space (asc '' </p>'')),
             0 + 1 + length (findall (pattern1 ''fa-spinner'')
                               (dropWhile is_space (asc '' </p>''))))"
    by blast+
  have s': "substitute (asc ''<i class=\"fas fa-save\"></i>'' @ spin_element (asc '' id=\"x\"'')) =
             ([0x1F4BE, 0x20, 0x23F3], 1)"
    using s unfolding r0 by (simp add: hourglass_def)
  have p': "apply_pattern (pattern1 ''fa-spinner'') hourglass
              (asc ''<p>'' @ spin_element [] @ asc '' </p>'', 0) =
            (asc ''<p>'' @ [0x23F3, 0x20] @ asc ''</p>'', 1)"
    using p unfolding w r1 f1 by (simp add: hourglass_def asc_def)
  show ?thesis using loop_save_then_spinner a b d s' p' by blast
qed

section \<open>Properties of paths\<close>

lemma relative_to_append: "relative_to (b @ r) b = Some r"
  by (induction b) auto

lemma occurs_in_append_left: "occurs_in s u \<Longrightarrow> occurs_in s (u @ v)"
  unfolding occurs_in_iff by (metis append.assoc)

lemma occurs_in_append_right: "occurs_in s v \<Longrightarrow> occurs_in s (u @ v)"
  unfolding occurs_in_iff by (metis append.assoc)

lemma occurs_in_self: "occurs_in s s"
  unfolding occurs_in_iff by (metis append_Nil append_Nil2)

lemma occurs_in_join: "s \<in> set ps \<Longrightarrow> occurs_in s (join_parts ps)"
proof (induction ps rule: join_parts.induct)
  case 1
  then show ?case by simp
next
  case (2 x)
  then show ?case by (simp add: occurs_in_self)
next
  case (3 x y ys)
  show ?case
  proof (cases "s = x")
    case True
    then show ?thesis
      using occurs_in_append_left [OF occurs_in_self, of x "asc ''/'' @ join_parts (y # ys)"]
      by simp
  next
    case False
    with "3.prems" have "s \<in> set (y # ys)" by simp
    then have "occurs_in s (join_parts (y # ys))" by (rule "3.IH")
    then show ?thesis
      using occurs_in_append_right [of s "join_parts (y # ys)" "x @ asc ''/''"]
      by simp
  qed
qed

lemma occurs_in_path_str: "s \<in> set p \<Longrightarrow> occurs_in s (path_str p)"
proof (cases p)
  case Nil
  assume "s \<in> set p"
  with Nil show ?thesis by simp
next
  case (Cons r rest)
  assume s: "s \<in> set p"
  show ?thesis
  proof (cases "r = asc ''/''")
    case False
    then show ?thesis using s Cons by (simp add: path_str_def occurs_in_join)
  next
    case True
    show ?thesis
    proof (cases "s = r")
      case True
      then show ?thesis
        using \<open>r = asc ''/''\<close> Cons occurs_in_append_left [OF occurs_in_self, of r "join_parts rest"]
        by (simp add: path_str_def)
    next
      case False
      with s Cons have "s \<in> set rest" by simp
      then have "occurs_in s (join_parts rest)" by (rule occurs_in_join)
      then show ?thesis
        using \<open>r = asc ''/''\<close> Cons occurs_in_append_right [of s "join_parts rest" r]
        by (simp add: path_str_def)
    qed
  qed
qed

lemma backup_not_candidate:
  "asc ''backup'' \<in> set f \<Longrightarrow> f \<notin> set (candidates e)"
  by (simp add: candidates_def occurs_in_path_str)

lemma candidate_relative:
  assumes "f \<in> set (candidates e)"
  shows "relative_to f (script_dir e) \<noteq> None"
proof -
  from assms obtain rel where "f = base_dir e @ rel" by (auto simp: candidates_def)
  then have "f = script_dir e @ ([asc ''views''] @ rel)" by (simp add: base_dir_def)
  then show ?thesis using relative_to_append by simp
qed

section \<open>What one call and the loop leave alone\<close>

lemma replace_frame:
  assumes "replace_fontawesome_in_file (fs, out) p = (n, fs', out')"
  shows "\<exists>evs. accesses fs' = accesses fs @ evs \<and> set evs \<subseteq> {OpenRead p, OpenWrite p}"
    and "q \<noteq> p \<Longrightarrow> files fs' q = files fs q"
    and "\<exists>extra. out' = out @ extra"
  using assms
  by (auto simp: replace_fontawesome_in_file_def try_block_def read_text_def write_text_def
      Let_def split: prod.splits sum.splits option.splits if_splits write_fault.splits)

lemma process_files_frame:
  assumes "process_files e fl (fs, out, t, m) = (oc, fs', out', t', m')"
  shows "(\<exists>evs. accesses fs' = accesses fs @ evs \<and>
            (\<forall>a\<in>set evs. \<exists>p\<in>set fl. a = OpenRead p \<or> a = OpenWrite p)) \<and>
         (\<forall>q. q \<notin> set fl \<longrightarrow> files fs' q = files fs q) \<and>
         (\<exists>extra. out' = out @ extra)"
  using assms
proof (induction fl arbitrary: fs out t m)
  case Nil
  then show ?case by simp
next
  case (Cons p rest)
  show ?case
  proof (cases "relative_to p (script_dir e)")
    case None
    with Cons.prems show ?thesis by simp
  next
    case (Some rp)
    obtain n fs1 out1 where r: "replace_fontawesome_in_file (fs, out) p = (n, fs1, out1)"
      by (metis prod_cases3)
    from replace_frame [OF r] obtain evs1 extra1 where
      a1: "accesses fs1 = accesses fs @ evs1" "set evs1 \<subseteq> {OpenRead p, OpenWrite p}" and
      f1: "\<And>q. q \<noteq> p \<Longrightarrow> files fs1 q = files fs q" and
      o1: "out1 = out @ extra1"
      by blast
    obtain out2 t2 m2 where
      rest: "process_files e rest (fs1, out2, t2, m2) = (oc, fs', out', t', m')" and
      o2: "\<exists>x. out2 = out1 @ x"
    proof (cases "n > 0")
      case True
      with Cons.prems Some r
      have "process_files e rest (fs1, out1 @ [replaced_line rp n], t + n, m + 1) =
              (oc, fs', out', t', m')"
        by simp
      then show ?thesis using that by blast
    next
      case False
      with Cons.prems Some r
      have "process_files e rest (fs1, out1, t, m) = (oc, fs', out', t', m')" by simp
      then show ?thesis using that [of out1] by simp
    qed
    from Cons.IH [OF rest] obtain evs2 extra2 where
      a2: "accesses fs' = accesses fs1 @ evs2"
          "\<forall>a\<in>set evs2. \<exists>p\<in>set rest. a = OpenRead p \<or> a = OpenWrite p" and
      f2: "\<forall>q. q \<notin> set rest \<longrightarrow> files fs' q = files fs1 q" and
      o3: "out' = out2 @ extra2"
      by blast
    have "accesses fs' = accesses fs @ (evs1 @ evs2)" using a1 a2 by simp
    moreover have "\<forall>a\<in>set (evs1 @ evs2). \<exists>q\<in>set (p # rest). a = OpenRead q \<or> a = OpenWrite q"
      using a1(2) a2(2) by auto
    moreover have "\<forall>q. q \<notin> set (p # rest) \<longrightarrow> files fs' q = files fs q"
      using f1 f2 by auto
    moreover have "\<exists>extra. out' = out @ extra" using o1 o2 o3 by auto
    ultimately show ?thesis by blast
  qed
qed

lemma process_files_completes:
  "\<forall>f\<in>set fl. relative_to f (script_dir e) \<noteq> None \<Longrightarrow>
   fst (process_files e fl st) = Completed"
proof (induction fl arbitrary: st)
  case Nil
  then show ?case by simp
next
  case (Cons p rest)
  obtain fs out t m where st: "st = (fs, out, t, m)" by (metis prod_cases4)
  from Cons.prems obtain rp where rp: "relative_to p (script_dir e) = Some rp" by auto
  obtain n fs1 out1 where r: "replace_fontawesome_in_file (fs, out) p = (n, fs1, out1)"
    by (metis prod_cases3)
  show ?case
    using Cons.IH Cons.prems by (simp add: st rp r)
qed

lemma main_outcome:
  assumes "views_exists e"
  shows "\<exists>fs' out m t.
           main e fs =
             (Completed, fs', banner @ [found_line (length (candidates e))] @ out @ summary m t)"
proof -
  let ?st = "(fs, banner @ [found_line (length (candidates e))], 0::nat, 0::nat)"
  obtain oc fs' out' t' m' where
    p: "process_files e (sort (candidates e)) ?st = (oc, fs', out', t', m')"
    by (metis prod_cases5)
  have "\<forall>f\<in>set (sort (candidates e)). relative_to f (script_dir e) \<noteq> None"
    using candidate_relative by simp
  from process_files_completes [OF this, of ?st] p have oc: "oc = Completed" by simp
  from process_files_frame [OF p] obtain extra where
    "out' = (banner @ [found_line (length (candidates e))]) @ extra"
    by blast
  then have "main e fs =
      (Completed, fs', banner @ [found_line (length (candidates e))] @ extra @ summary m' t')"
    using assms p oc by (simp add: main_def Let_def)
  then show ?thesis by blast
qed

section \<open>Errors while a file is read or written\<close>

text \<open>
  C5. When reading the file raises (opening, reading or decoding), the function prints
  one line that holds the path and the message of the exception, returns 0, and leaves
  the files as they were; the loop of \<open>main\<close> goes on with the remaining files, its
  counters unchanged.
\<close>

theorem read_failure_caught:
  assumes "fst (read_text fs p) = Inl msg"
  shows "replace_fontawesome_in_file (fs, out) p =
           (0, fs\<lparr>accesses := accesses fs @ [OpenRead p]\<rparr>, out @ [error_line p msg]) \<and>
         occurs_in (path_str p) (error_line p msg) \<and>
         occurs_in msg (error_line p msg) \<and>
         (relative_to p (script_dir e) \<noteq> None \<longrightarrow>
            process_files e (p # rest) (fs, out, total_changes, files_modified) =
            process_files e rest
              (fs\<lparr>accesses := accesses fs @ [OpenRead p]\<rparr>, out @ [error_line p msg],
               total_changes, files_modified))"
proof -
  have "occurs_in (path_str p) (error_line p msg)"
    unfolding error_line_def occurs_in_iff by (metis append.assoc)
  moreover have "occurs_in msg (error_line p msg)"
    unfolding error_line_def occurs_in_iff by (metis append.assoc append_Nil2)
  ultimately show ?thesis
    using replace_unreadable [OF assms] by auto
qed

theorem read_failure_caught_witness:
  "fst (read_text (unreadable_store demo_file denied) demo_file) = Inl denied \<and>
   relative_to demo_file (script_dir demo_env) = Some [asc ''views'', asc ''index.ejs''] \<and>
   replace_fontawesome_in_file (unreadable_store demo_file denied, []) demo_file =
     (0, (unreadable_store demo_file denied)\<lparr>accesses := [OpenRead demo_file]\<rparr>,
      [error_line demo_file denied]) \<and>
   process_files demo_env [demo_file] (unreadable_store demo_file denied, [], 0, 0) =
     (Completed,
      (unreadable_store demo_file denied)\<lparr>accesses := [OpenRead demo_file]\<rparr>,
      [error_line demo_file denied], 0, 0)"
proof -
  have r: "fst (read_text (unreadable_store demo_file denied) demo_file) = Inl denied"
    by (simp add: read_text_def unreadable_store_def Let_def)
  have rel: "relative_to demo_file (script_dir demo_env) = Some [asc ''views'', asc ''index.ejs'']"
    by (simp add: demo_file_def demo_env_def)
  have a: "accesses (unreadable_store demo_file denied) = []"
    by (simp add: unreadable_store_def)
  from read_failure_caught [OF r, of "[]" demo_env "[]" 0 0] r rel a
  show ?thesis by simp
qed

text \<open>
  C4, the claim as stated fails: the write is inside the \<open>try\<close> statement. With a file
  that can be read and not opened for writing, the function prints the error line and
  returns 0, and the run completes with its summary.
\<close>

theorem write_failure_does_not_halt:
  "fst (read_text (locked_store demo_file (asc ''<i class=\"fas fa-trash\"></i>'') denied)
         demo_file) = Inr (asc ''<i class=\"fas fa-trash\"></i>'') \<and>
   fst (write_text (locked_store demo_file (asc ''<i class=\"fas fa-trash\"></i>'') denied)
         demo_file [0x1F5D1, 0xFE0F, 0x20]) = Inl denied \<and>
   replace_fontawesome_in_file
     (locked_store demo_file (asc ''<i class=\"fas fa-trash\"></i>'') denied, []) demo_file =
     (0,
      (locked_store demo_file (asc ''<i class=\"fas fa-trash\"></i>'') denied)
        \<lparr>accesses := [OpenRead demo_file, OpenWrite demo_file]\<rparr>,
      [error_line demo_file denied]) \<and>
   main demo_env (locked_store demo_file (asc ''<i class=\"fas fa-trash\"></i>'') denied) =
     (Completed,
      (locked_store demo_file (asc ''<i class=\"fas fa-trash\"></i>'') denied)
        \<lparr>accesses := [OpenRead demo_file, OpenWrite demo_file]\<rparr>,
      banner @ [found_line 1, error_line demo_file denied] @ summary 0 0)"
proof -
  have cr: "0x0D \<notin> set (asc ''<i class=\"fas fa-trash\"></i>'')"
    by (simp add: asc_def)
  have ne: "[0x1F5D1, 0xFE0F, 0x20] \<noteq> asc ''<i class=\"fas fa-trash\"></i>''"
    by (simp add: asc_def)
  have w: "fst (write_text (locked_store demo_file (asc ''<i class=\"fas fa-trash\"></i>'') denied)
         demo_file [0x1F5D1, 0xFE0F, 0x20]) = Inl denied"
    by (simp add: write_text_def locked_store_def Let_def)
  have f: "\<And>out. replace_fontawesome_in_file
     (locked_store demo_file (asc ''<i class=\"fas fa-trash\"></i>'') denied, out) demo_file =
     (0,
      (locked_store demo_file (asc ''<i class=\"fas fa-trash\"></i>'') denied)
        \<lparr>accesses := [OpenRead demo_file, OpenWrite demo_file]\<rparr>,
      out @ [error_line demo_file denied])"
    using replace_readable [OF read_locked_store [OF cr] subst_trash] ne
    by (simp add: locked_store_def write_text_def Let_def)
  show ?thesis
    by (simp add: read_locked_store [OF cr] w f main_demo)
qed

text \<open>
  C4, amended. When the file is read, the substitutions change its content, and the
  write fails (at \<open>open\<close>, or later with the file truncated), the exception is caught
  like any other: the function prints the error line with the path and the message,
  returns 0, and the loop of \<open>main\<close> goes on with the remaining files. The store is the
  one the failed write has left.
\<close>

theorem write_failure_caught:
  assumes "fst (read_text fs p) = Inr content"
    and "fst (substitute content) \<noteq> content"
    and "write_error fs p = Some fault"
  shows "replace_fontawesome_in_file (fs, out) p =
           (0, snd (write_text (snd (read_text fs p)) p (fst (substitute content))),
            out @ [error_line p (fault_message fault)]) \<and>
         (relative_to p (script_dir e) \<noteq> None \<longrightarrow>
            process_files e (p # rest) (fs, out, total_changes, files_modified) =
            process_files e rest
              (snd (write_text (snd (read_text fs p)) p (fst (substitute content))),
               out @ [error_line p (fault_message fault)], total_changes, files_modified))"
proof -
  obtain c' n where s: "substitute content = (c', n)" by (metis prod.collapse)
  with assms(2) have "c' \<noteq> content" by simp
  then have "replace_fontawesome_in_file (fs, out) p =
           (0, snd (write_text (snd (read_text fs p)) p (fst (substitute content))),
            out @ [error_line p (fault_message fault)])"
    using replace_readable [OF assms(1) s] assms(3) by (simp add: s snd_read_text)
  then show ?thesis by auto
qed

theorem write_failure_caught_witness:
  "fst (read_text (locked_store demo_file (asc ''<i class=\"fas fa-trash\"></i>'') denied)
         demo_file) = Inr (asc ''<i class=\"fas fa-trash\"></i>'') \<and>
   fst (substitute (asc ''<i class=\"fas fa-trash\"></i>'')) \<noteq>
     asc ''<i class=\"fas fa-trash\"></i>'' \<and>
   write_error (locked_store demo_file (asc ''<i class=\"fas fa-trash\"></i>'') denied)
     demo_file = Some (OpenFails denied) \<and>
   relative_to demo_file (script_dir demo_env) = Some [asc ''views'', asc ''index.ejs''] \<and>
   process_files demo_env [demo_file]
     (locked_store demo_file (asc ''<i class=\"fas fa-trash\"></i>'') denied, [], 0, 0) =
     (Completed,
      (locked_store demo_file (asc ''<i class=\"fas fa-trash\"></i>'') denied)
        \<lparr>accesses := [OpenRead demo_file, OpenWrite demo_file]\<rparr>,
      [error_line demo_file denied], 0, 0)"
proof -
  have cr: "0x0D \<notin> set (asc ''<i class=\"fas fa-trash\"></i>'')"
    by (simp add: asc_def)
  have r: "fst (read_text (locked_store demo_file (asc ''<i class=\"fas fa-trash\"></i>'') denied)
         demo_file) = Inr (asc ''<i class=\"fas fa-trash\"></i>'')"
    by (rule read_locked_store [OF cr])
  have ne: "fst (substitute (asc ''<i class=\"fas fa-trash\"></i>'')) \<noteq>
     asc ''<i class=\"fas fa-trash\"></i>''"
    unfolding subst_trash by (simp add: asc_def)
  have w: "write_error (locked_store demo_file (asc ''<i class=\"fas fa-trash\"></i>'') denied)
     demo_file = Some (OpenFails denied)"
    by (simp add: locked_store_def)
  have rel: "relative_to demo_file (script_dir demo_env) = Some [asc ''views'', asc ''index.ejs'']"
    by (simp add: demo_file_def demo_env_def)
  have s: "snd (write_text
                 (snd (read_text
                        (locked_store demo_file (asc ''<i class=\"fas fa-trash\"></i>'') denied)
                        demo_file))
                 demo_file (fst (substitute (asc ''<i class=\"fas fa-trash\"></i>'')))) =
           (locked_store demo_file (asc ''<i class=\"fas fa-trash\"></i>'') denied)
             \<lparr>accesses := [OpenRead demo_file, OpenWrite demo_file]\<rparr>"
    by (simp add: snd_read_text write_text_def Let_def locked_store_def)
  from write_failure_caught [OF r ne w, of "[]" demo_env "[]" 0 0] r ne w rel s
  show ?thesis by simp
qed

section \<open>The run as a whole\<close>

text \<open>
  C6. When \<open>views\<close> does not exist, \<open>main\<close> prints the banner and the message, ends
  normally, and the file store is exactly as before: no file was opened. When it exists,
  \<open>main\<close> always ends normally, and what it printed ends with the six lines of the
  summary.
\<close>

theorem main_exit_behaviour:
  "(\<not> views_exists e \<longrightarrow> main e fs = (Completed, fs, banner @ [not_found_line e])) \<and>
   (views_exists e \<longrightarrow>
      (\<exists>fs' out m t.
         main e fs =
           (Completed, fs',
            banner @ [found_line (length (candidates e))] @ out @ summary m t)))"
  using main_outcome by (simp add: main_def)

theorem main_exit_behaviour_witness:
  "\<not> views_exists absent_env \<and>
   main absent_env (plain_store demo_file (asc ''<p>Hello</p>'')) =
     (Completed, plain_store demo_file (asc ''<p>Hello</p>''),
      banner @ [not_found_line absent_env]) \<and>
   views_exists demo_env \<and>
   fst (main demo_env (plain_store demo_file (asc ''<p>Hello</p>''))) = Completed"
proof -
  have a: "\<not> views_exists absent_env" by (simp add: absent_env_def)
  have d: "views_exists demo_env" by (simp add: demo_env_def)
  from main_exit_behaviour [of absent_env "plain_store demo_file (asc ''<p>Hello</p>'')"] a
  have 1: "main absent_env (plain_store demo_file (asc ''<p>Hello</p>'')) =
     (Completed, plain_store demo_file (asc ''<p>Hello</p>''),
      banner @ [not_found_line absent_env])"
    by simp
  from main_exit_behaviour [of demo_env "plain_store demo_file (asc ''<p>Hello</p>'')"] d
  have 2: "fst (main demo_env (plain_store demo_file (asc ''<p>Hello</p>''))) = Completed"
    by auto
  show ?thesis using a d 1 2 by simp
qed

text \<open>
  C8. A path with a part named \<open>backup\<close> is not among the candidates, whatever
  \<open>rglob\<close> listed; the run opens it neither for reading nor for writing, and its content
  after the run is its content before.
\<close>

theorem backup_files_untouched:
  assumes "asc ''backup'' \<in> set f"
  shows "f \<notin> set (candidates e) \<and>
         (\<exists>evs. accesses (fst (snd (main e fs))) = accesses fs @ evs \<and>
                OpenRead f \<notin> set evs \<and> OpenWrite f \<notin> set evs) \<and>
         files (fst (snd (main e fs))) f = files fs f"
proof -
  have nc: "f \<notin> set (candidates e)" using assms by (rule backup_not_candidate)
  show ?thesis
  proof (cases "views_exists e")
    case False
    then have "main e fs = (Completed, fs, banner @ [not_found_line e])"
      by (simp add: main_def)
    then show ?thesis using nc by simp
  next
    case True
    let ?st = "(fs, banner @ [found_line (length (candidates e))], 0::nat, 0::nat)"
    obtain oc fs' out' t' m' where
      p: "process_files e (sort (candidates e)) ?st = (oc, fs', out', t', m')"
      by (metis prod_cases5)
    have m: "fst (snd (main e fs)) = fs'"
      using True p by (cases oc) (simp_all add: main_def Let_def)
    from process_files_frame [OF p] obtain evs where
      e1: "accesses fs' = accesses fs @ evs" and
      e2: "\<forall>a\<in>set evs. \<exists>q\<in>set (sort (candidates e)). a = OpenRead q \<or> a = OpenWrite q" and
      e3: "\<forall>q. q \<notin> set (sort (candidates e)) \<longrightarrow> files fs' q = files fs q"
      by blast
    have "OpenRead f \<notin> set evs" "OpenWrite f \<notin> set evs"
      using e2 nc by auto
    moreover have "files fs' f = files fs f" using e3 nc by simp
    ultimately show ?thesis using nc e1 m by auto
  qed
qed

theorem backup_files_untouched_witness:
  "asc ''backup'' \<in> set backup_file \<and>
   map (\<lambda>rel. base_dir backup_env @ rel) (rglob_ejs backup_env) = [backup_file, demo_file] \<and>
   candidates backup_env = [demo_file] \<and>
   files (fst (snd (main backup_env
             (plain_store backup_file (asc ''<i class=\"fas fa-trash\"></i>''))))) backup_file =
     Some (asc ''<i class=\"fas fa-trash\"></i>'')"
proof -
  have b: "asc ''backup'' \<in> set backup_file" by (simp add: backup_file_def)
  have l: "map (\<lambda>rel. base_dir backup_env @ rel) (rglob_ejs backup_env) =
             [backup_file, demo_file]"
    by (simp add: backup_env_def base_dir_def backup_file_def demo_file_def)
  have c: "candidates backup_env = [demo_file]"
    unfolding candidates_def l
    by (simp add: backup_file_def demo_file_def path_str_def asc_def)
  from backup_files_untouched [OF b, of backup_env
         "plain_store backup_file (asc ''<i class=\"fas fa-trash\"></i>'')"]
  have "files (fst (snd (main backup_env
             (plain_store backup_file (asc ''<i class=\"fas fa-trash\"></i>''))))) backup_file =
        files (plain_store backup_file (asc ''<i class=\"fas fa-trash\"></i>'')) backup_file"
    by simp
  then show ?thesis using b l c by (simp add: plain_store_def)
qed

end
